theory Spec2Isabelle
  imports Complex_Main "HOL-Library.Word" "HOL-Library.Sublist"
begin

section \<open>C values shared by both programs\<close>

subsection \<open>Doubles\<close>

text \<open>
  A C \<open>double\<close> is an IEEE 754 binary64 value: a finite number, one of the two infinities,
  or a NaN. Finite values are kept as the real number they denote, so the two zeros are one
  value and all NaNs are one value. Every arithmetic result is rounded to the nearest
  representable number, ties to the even significand (\<open>round_double\<close>): 53 significant
  bits, the smallest spacing \<open>2 powi -1074\<close> (subnormal numbers), and overflow to an
  infinity from \<open>2 ^ 1024\<close> on.
\<close>

datatype double = Finite real | PlusInf | MinusInf | NaN

definition round_half_even :: "real \<Rightarrow> int" where
  "round_half_even x =
     (let f = \<lfloor>x\<rfloor>; d = x - of_int f
      in if d < 1 / 2 then f
         else if 1 / 2 < d then f + 1
         else if even f then f else f + 1)"

definition ulp_exponent :: "real \<Rightarrow> int" where
  "ulp_exponent x = max (\<lfloor>log 2 \<bar>x\<bar>\<rfloor> - 52) (- 1074)"

definition round_finite :: "real \<Rightarrow> real" where
  "round_finite x =
     (if x = 0 then 0
      else of_int (round_half_even (x / 2 powi ulp_exponent x)) * 2 powi ulp_exponent x)"

definition round_double :: "real \<Rightarrow> double" where
  "round_double x =
     (let r = round_finite x
      in if 2 ^ 1024 \<le> r then PlusInf
         else if r \<le> - (2 ^ 1024) then MinusInf
         else Finite r)"

fun double_neg :: "double \<Rightarrow> double" where
  "double_neg (Finite a) = Finite (- a)"
| "double_neg PlusInf = MinusInf"
| "double_neg MinusInf = PlusInf"
| "double_neg NaN = NaN"

text \<open>The sign an infinite result takes from a finite operand (zero counts as positive).\<close>

definition signed_inf :: "bool \<Rightarrow> double" where
  "signed_inf negative = (if negative then MinusInf else PlusInf)"

fun double_mul :: "double \<Rightarrow> double \<Rightarrow> double" where
  "double_mul NaN _ = NaN"
| "double_mul _ NaN = NaN"
| "double_mul (Finite a) (Finite b) = round_double (a * b)"
| "double_mul (Finite a) PlusInf = (if a = 0 then NaN else signed_inf (a < 0))"
| "double_mul (Finite a) MinusInf = (if a = 0 then NaN else signed_inf (0 < a))"
| "double_mul PlusInf (Finite b) = (if b = 0 then NaN else signed_inf (b < 0))"
| "double_mul MinusInf (Finite b) = (if b = 0 then NaN else signed_inf (0 < b))"
| "double_mul PlusInf PlusInf = PlusInf"
| "double_mul PlusInf MinusInf = MinusInf"
| "double_mul MinusInf PlusInf = MinusInf"
| "double_mul MinusInf MinusInf = PlusInf"

text \<open>
  Division by zero does not trap in C: a nonzero number divided by zero is an infinity and
  \<open>0 / 0\<close> is a NaN.
\<close>

fun double_div :: "double \<Rightarrow> double \<Rightarrow> double" where
  "double_div NaN _ = NaN"
| "double_div _ NaN = NaN"
| "double_div (Finite a) (Finite b) =
     (if b = 0 then (if a = 0 then NaN else signed_inf (a < 0))
      else round_double (a / b))"
| "double_div (Finite a) PlusInf = Finite 0"
| "double_div (Finite a) MinusInf = Finite 0"
| "double_div PlusInf (Finite b) = signed_inf (b < 0)"
| "double_div MinusInf (Finite b) = signed_inf (0 \<le> b)"
| "double_div PlusInf PlusInf = NaN"
| "double_div PlusInf MinusInf = NaN"
| "double_div MinusInf PlusInf = NaN"
| "double_div MinusInf MinusInf = NaN"

fun double_add :: "double \<Rightarrow> double \<Rightarrow> double" where
  "double_add NaN _ = NaN"
| "double_add _ NaN = NaN"
| "double_add (Finite a) (Finite b) = round_double (a + b)"
| "double_add (Finite a) PlusInf = PlusInf"
| "double_add (Finite a) MinusInf = MinusInf"
| "double_add PlusInf (Finite b) = PlusInf"
| "double_add MinusInf (Finite b) = MinusInf"
| "double_add PlusInf PlusInf = PlusInf"
| "double_add PlusInf MinusInf = NaN"
| "double_add MinusInf PlusInf = NaN"
| "double_add MinusInf MinusInf = MinusInf"

definition double_sub :: "double \<Rightarrow> double \<Rightarrow> double" where
  "double_sub a b = double_add a (double_neg b)"

text \<open>The conversions \<open>(double)\<close> of a \<open>uint64_t\<close> and of an \<open>int\<close>.\<close>

definition double_of_u64 :: "64 word \<Rightarrow> double" where
  "double_of_u64 w = round_double (real (unat w))"

definition double_of_int :: "32 word \<Rightarrow> double" where
  "double_of_int w = round_double (real_of_int (sint w))"

text \<open>The reals that are values of a double: rounding leaves them as they are.\<close>

definition representable :: "real \<Rightarrow> bool" where
  "representable x = (round_finite x = x \<and> \<bar>x\<bar> < 2 ^ 1024)"

subsection \<open>Characters and C strings\<close>

text \<open>\<open>isspace\<close> and \<open>isdigit\<close> in the C locale (neither program sets another).\<close>

definition isspace :: "char \<Rightarrow> bool" where
  "isspace c = (c \<in> {CHR '' '', CHR 0x09, CHR 0x0A, CHR 0x0B, CHR 0x0C, CHR 0x0D})"

definition isdigit :: "char \<Rightarrow> bool" where
  "isdigit c = (48 \<le> (of_char c :: nat) \<and> (of_char c :: nat) \<le> 57)"

definition digit_val :: "char \<Rightarrow> nat" where
  "digit_val c = of_char c - 48"

text \<open>The number a string of decimal digits denotes, most significant digit first.\<close>

definition nat_of_digits :: "string \<Rightarrow> nat" where
  "nat_of_digits ds = foldl (\<lambda>n c. 10 * n + digit_val c) 0 ds"

text \<open>
  A buffer read as a C string ends before its first NUL byte: every \<open>str*\<close> function and
  \<open>sscanf\<close> sees only that part.
\<close>

definition c_str :: "string \<Rightarrow> string" where
  "c_str buf = takeWhile (\<lambda>c. c \<noteq> CHR 0x00) buf"

subsection \<open>Files\<close>

text \<open>
  What the programs can observe of a file they read: it cannot be opened (it is missing, or
  permission is denied), it opens but reading it fails, or it yields its bytes.
\<close>

datatype vfile = OpenFails | ReadFails | Bytes string

text \<open>
  \<open>fgets(line, n, fp)\<close> on the unread rest of a stream: at most \<open>n - 1\<close> bytes, up to
  and including the first newline; \<open>None\<close> (a null pointer) at end of file.
\<close>

fun take_line :: "nat \<Rightarrow> string \<Rightarrow> string" where
  "take_line n [] = []"
| "take_line n (c # cs) =
     (if n = 0 then []
      else if c = CHR 0x0A then [c]
      else c # take_line (n - 1) cs)"

definition fgets :: "nat \<Rightarrow> string \<Rightarrow> (string \<times> string) option" where
  "fgets n s =
     (if s = [] then None
      else let l = take_line (n - 1) s in Some (l, drop (length l) s))"

text \<open>
  The lines of a text: each runs up to and including its newline; the last one may lack
  it. \<open>first_line\<close> is the first of them.
\<close>

fun first_line :: "string \<Rightarrow> string" where
  "first_line [] = []"
| "first_line (c # cs) = (if c = CHR 0x0A then [c] else c # first_line cs)"

function file_lines :: "string \<Rightarrow> string list" where
  "file_lines [] = []"
| "file_lines (c # cs)
     = first_line (c # cs) # file_lines (drop (length (first_line (c # cs))) (c # cs))"
  by pat_completeness auto
termination
  by (relation "measure length") auto

declare file_lines.simps [simp del]

subsection \<open>The \<open>%lu\<close> conversion of \<open>sscanf\<close>\<close>

text \<open>
  \<open>%lu\<close> skips white space, then reads an optional sign and decimal digits. The end of the
  input before any character of the number is an input failure; anything else that is not a
  number is a matching failure. The value is the one \<open>strtoul\<close> gives: a value that does not fit
  in 64 bits becomes \<open>ULONG_MAX\<close>, and a minus sign negates modulo \<open>2 ^ 64\<close>.
\<close>

datatype conversion = Converted "64 word" string | MatchingFailure | InputFailure

definition strtoul_value :: "bool \<Rightarrow> nat \<Rightarrow> 64 word" where
  "strtoul_value negative n =
     (if 2 ^ 64 \<le> n then - 1
      else if negative then - of_nat n else of_nat n)"

definition scan_lu :: "string \<Rightarrow> conversion" where
  "scan_lu s =
     (let s1 = dropWhile isspace s
      in if s1 = [] then InputFailure
         else let negative = (hd s1 = CHR ''-'');
                  s2 = (if hd s1 = CHR ''-'' \<or> hd s1 = CHR ''+'' then tl s1 else s1);
                  ds = takeWhile isdigit s2
              in if ds = [] then MatchingFailure
                 else Converted (strtoul_value negative (nat_of_digits ds))
                        (dropWhile isdigit s2))"

subsection \<open>The conversions of \<open>printf\<close>\<close>

definition digit_char :: "nat \<Rightarrow> char" where
  "digit_char d = ''0123456789'' ! d"

fun dec :: "nat \<Rightarrow> string" where
  "dec n = (if n < 10 then [digit_char n] else dec (n div 10) @ [digit_char (n mod 10)])"

declare dec.simps [simp del]

definition zero_pad :: "nat \<Rightarrow> string \<Rightarrow> string" where
  "zero_pad w s = replicate (w - length s) (CHR ''0'') @ s"

text \<open>\<open>%lu\<close> of a \<open>uint64_t\<close>, \<open>%ld\<close> and \<open>%09ld\<close> of a \<open>long\<close> (64 bits on the target).\<close>

definition fmt_lu :: "64 word \<Rightarrow> string" where
  "fmt_lu w = dec (unat w)"

definition fmt_ld :: "64 word \<Rightarrow> string" where
  "fmt_ld w = (if sint w < 0 then ''-'' @ dec (nat (- sint w)) else dec (nat (sint w)))"

definition fmt_09ld :: "64 word \<Rightarrow> string" where
  "fmt_09ld w =
     (if sint w < 0 then ''-'' @ zero_pad 8 (dec (nat (- sint w)))
      else zero_pad 9 (dec (nat (sint w))))"

text \<open>
  \<open>%.pf\<close> of a double: the sign, then the magnitude rounded to \<open>p\<close> decimal places (the
  exact value of the double is rounded, ties to even), with at least one digit before the
  point. Infinities and NaNs print as words. The model has one zero: a negative zero, which
  \<open>printf\<close> writes with a minus sign, prints here as the positive one.
\<close>

definition fmt_f :: "nat \<Rightarrow> double \<Rightarrow> string" where
  "fmt_f p d =
     (case d of
        Finite x \<Rightarrow>
          (let k = nat (round_half_even (\<bar>x\<bar> * 10 ^ p))
           in (if x < 0 then ''-'' else [])
              @ dec (k div 10 ^ p)
              @ (if p = 0 then [] else ''.'' @ zero_pad p (dec (k mod 10 ^ p))))
      | PlusInf \<Rightarrow> ''inf''
      | MinusInf \<Rightarrow> ''-inf''
      | NaN \<Rightarrow> ''nan'')"

subsection \<open>\<open>strtod\<close>\<close>

text \<open>
  \<open>strtod\<close> skips white space, reads an optional sign and then the longest text that is
  \<open>inf\<close>, \<open>infinity\<close> or \<open>nan\<close> in any case, a hexadecimal number after \<open>0x\<close>, or
  a decimal number: digits with an optional point and an optional exponent. The value is
  the number read, correctly rounded. \<open>parse_double\<close> gives \<open>None\<close> when no number can be
  read; \<open>strtod\<close> then returns zero. Where the number ends is not modelled: both programs
  pass a null end pointer.
\<close>

definition tolower :: "char \<Rightarrow> char" where
  "tolower c =
     (case map_of (zip ''ABCDEFGHIJKLMNOPQRSTUVWXYZ'' ''abcdefghijklmnopqrstuvwxyz'') c of
        Some l \<Rightarrow> l
      | None \<Rightarrow> c)"

definition starts_nocase :: "string \<Rightarrow> string \<Rightarrow> bool" where
  "starts_nocase word s = (map tolower (take (length word) s) = word)"

definition isxdigit :: "char \<Rightarrow> bool" where
  "isxdigit c =
     (isdigit c \<or> (97 \<le> (of_char (tolower c) :: nat) \<and> (of_char (tolower c) :: nat) \<le> 102))"

definition xdigit_val :: "char \<Rightarrow> nat" where
  "xdigit_val c = (if isdigit c then digit_val c else of_char (tolower c) - 87)"

definition nat_of_xdigits :: "string \<Rightarrow> nat" where
  "nat_of_xdigits ds = foldl (\<lambda>n c. 16 * n + xdigit_val c) 0 ds"

text \<open>
  An exponent part after the letter \<open>e\<close> or \<open>p\<close>: an optional sign and decimal digits. It
  counts only when a digit is there; otherwise the number ends before the letter.
\<close>

definition scan_exponent :: "char \<Rightarrow> string \<Rightarrow> int" where
  "scan_exponent letter s =
     (if s \<noteq> [] \<and> tolower (hd s) = letter
      then (let r = tl s;
                negative = (r \<noteq> [] \<and> hd r = CHR ''-'');
                r1 = (if r \<noteq> [] \<and> (hd r = CHR ''-'' \<or> hd r = CHR ''+'') then tl r else r);
                ds = takeWhile isdigit r1
            in if negative then - int (nat_of_digits ds) else int (nat_of_digits ds))
      else 0)"

definition scan_decimal :: "string \<Rightarrow> real option" where
  "scan_decimal s =
     (let ip = takeWhile isdigit s;
          r1 = dropWhile isdigit s;
          has_point = (r1 \<noteq> [] \<and> hd r1 = CHR ''.'');
          fp = (if has_point then takeWhile isdigit (tl r1) else []);
          r2 = (if has_point then dropWhile isdigit (tl r1) else r1)
      in if ip = [] \<and> fp = [] then None
         else Some (real (nat_of_digits (ip @ fp))
                    * 10 powi (scan_exponent (CHR ''e'') r2 - int (length fp))))"

definition scan_hex :: "string \<Rightarrow> real option" where
  "scan_hex s =
     (let ip = takeWhile isxdigit s;
          r1 = dropWhile isxdigit s;
          has_point = (r1 \<noteq> [] \<and> hd r1 = CHR ''.'');
          fp = (if has_point then takeWhile isxdigit (tl r1) else []);
          r2 = (if has_point then dropWhile isxdigit (tl r1) else r1)
      in if ip = [] \<and> fp = [] then None
         else Some (real (nat_of_xdigits (ip @ fp))
                    * 2 powi (scan_exponent (CHR ''p'') r2 - 4 * int (length fp))))"

text \<open>The unsigned part. After \<open>0x\<close> without a hexadecimal digit, the number is the \<open>0\<close>.\<close>

definition scan_magnitude :: "string \<Rightarrow> double option" where
  "scan_magnitude s =
     (if starts_nocase ''inf'' s then Some PlusInf
      else if starts_nocase ''nan'' s then Some NaN
      else if starts_nocase ''0x'' s
      then (case scan_hex (drop 2 s) of
              Some x \<Rightarrow> Some (round_double x)
            | None \<Rightarrow> Some (Finite 0))
      else map_option round_double (scan_decimal s))"

definition parse_double :: "string \<Rightarrow> double option" where
  "parse_double s =
     (let s1 = dropWhile isspace s;
          negative = (s1 \<noteq> [] \<and> hd s1 = CHR ''-'');
          s2 = (if s1 \<noteq> [] \<and> (hd s1 = CHR ''-'' \<or> hd s1 = CHR ''+'') then tl s1 else s1)
      in map_option (\<lambda>d. if negative then double_neg d else d) (scan_magnitude s2))"

definition strtod :: "string \<Rightarrow> double" where
  "strtod s = (case parse_double s of Some d \<Rightarrow> d | None \<Rightarrow> Finite 0)"

text \<open>
  The conversion \<open>(long)\<close> of a double truncates towards zero. Outside the range of
  \<open>long\<close>, and for a NaN, C leaves the result undefined; the model takes what the AArch64
  conversion instruction of the target gives (saturation, and \<open>0\<close> for a NaN).
\<close>

definition long_of_double :: "double \<Rightarrow> 64 word" where
  "long_of_double d =
     (case d of
        Finite x \<Rightarrow>
          (let t = (if 0 \<le> x then \<lfloor>x\<rfloor> else \<lceil>x\<rceil>)
           in if 2 ^ 63 \<le> t then word_of_int (2 ^ 63 - 1)
              else if t < - (2 ^ 63) then word_of_int (- (2 ^ 63))
              else word_of_int t)
      | PlusInf \<Rightarrow> word_of_int (2 ^ 63 - 1)
      | MinusInf \<Rightarrow> word_of_int (- (2 ^ 63))
      | NaN \<Rightarrow> 0)"

section \<open>The sampler (sysmon.c)\<close>

subsection \<open>Data\<close>

record CpuSnapshot =
  user :: "64 word"
  nice :: "64 word"
  system :: "64 word"
  idle :: "64 word"
  iowait :: "64 word"
  irq :: "64 word"
  softirq :: "64 word"
  steal :: "64 word"

record SystemState =
  temp_c :: double
  cpu_usage_percent :: double
  mem_total_kb :: "64 word"
  mem_available_kb :: "64 word"
  mem_free_kb :: "64 word"
  uptime_sec :: double

subsection \<open>calculate_cpu_usage\<close>

text \<open>All sums and differences are \<open>uint64_t\<close> arithmetic: they wrap modulo \<open>2 ^ 64\<close>.\<close>

definition calculate_cpu_usage :: "CpuSnapshot \<Rightarrow> CpuSnapshot \<Rightarrow> double" where
  "calculate_cpu_usage prev cur =
     (let prev_idle = idle prev + iowait prev;
          curr_idle = idle cur + iowait cur;
          prev_non_idle = user prev + nice prev + system prev + irq prev + softirq prev
                          + steal prev;
          curr_non_idle = user cur + nice cur + system cur + irq cur + softirq cur
                          + steal cur;
          prev_total = prev_idle + prev_non_idle;
          curr_total = curr_idle + curr_non_idle;
          total_diff = curr_total - prev_total;
          idle_diff = curr_idle - prev_idle
      in if total_diff = 0 then Finite 0
         else double_mul
                (double_div (double_of_u64 (total_diff - idle_diff)) (double_of_u64 total_diff))
                (Finite 100))"

text \<open>The total of a snapshot, as the function computes it.\<close>

definition cpu_total :: "CpuSnapshot \<Rightarrow> 64 word" where
  "cpu_total s =
     (idle s + iowait s) + (user s + nice s + system s + irq s + softirq s + steal s)"

subsection \<open>get_cpu_temperature\<close>

text \<open>
  \<open>atoi\<close> is \<open>(int) strtol(s, NULL, 10)\<close>: white space, an optional sign, decimal digits;
  \<open>0\<close> when no digit follows. \<open>strtol\<close> saturates at the bounds of \<open>long\<close>, and the
  conversion to \<open>int\<close> keeps the low 32 bits.
\<close>

definition strtol_value :: "bool \<Rightarrow> nat \<Rightarrow> int" where
  "strtol_value negative n =
     (if negative then max (- (2 ^ 63)) (- int n) else min (2 ^ 63 - 1) (int n))"

definition atoi :: "string \<Rightarrow> 32 word" where
  "atoi s =
     (let s1 = dropWhile isspace s;
          negative = (s1 \<noteq> [] \<and> hd s1 = CHR ''-'');
          s2 = (if s1 \<noteq> [] \<and> (hd s1 = CHR ''-'' \<or> hd s1 = CHR ''+'') then tl s1 else s1)
      in word_of_int (strtol_value negative (nat_of_digits (takeWhile isdigit s2))))"

text \<open>
  The thermal zone file is read with \<open>open\<close> and one \<open>read\<close> of at most 15 bytes
  (\<open>sizeof(buffer) - 1\<close>); \<open>bytes_read\<close> is the number of bytes that \<open>read\<close> returned,
  negative when it failed.
\<close>

definition get_cpu_temperature :: "vfile \<Rightarrow> double" where
  "get_cpu_temperature thermal =
     (case thermal of
        OpenFails \<Rightarrow> Finite (- 1)
      | ReadFails \<Rightarrow> Finite (- 1)
      | Bytes content \<Rightarrow>
          (let buffer = take 15 content;
               bytes_read = int (length buffer)
           in if bytes_read \<le> 0 then Finite (- 1)
              else let millidegrees = atoi (c_str buffer)
                   in double_div (double_of_int millidegrees) (Finite 1000)))"

subsection \<open>get_memory_info\<close>

text \<open>
  \<open>sscanf(line, "Key: %lu kB", &field)\<close>: the literal key, white space, then \<open>%lu\<close>. The
  field is assigned only when the conversion succeeds; the return value is not looked at.
\<close>

definition sscanf_key_lu :: "string \<Rightarrow> string \<Rightarrow> 64 word option" where
  "sscanf_key_lu key line =
     (if prefix key line
      then (case scan_lu (dropWhile isspace (drop (length key) line)) of
              Converted v _ \<Rightarrow> Some v
            | MatchingFailure \<Rightarrow> None
            | InputFailure \<Rightarrow> None)
      else None)"

text \<open>One pass of the loop body; \<open>strncmp(line, key, strlen(key)) == 0\<close> is a prefix test.\<close>

definition meminfo_line :: "string \<Rightarrow> SystemState \<Rightarrow> SystemState" where
  "meminfo_line line st =
     (if prefix ''MemTotal:'' line
      then (case sscanf_key_lu ''MemTotal:'' line of
              Some v \<Rightarrow> st\<lparr>mem_total_kb := v\<rparr> | None \<Rightarrow> st)
      else if prefix ''MemFree:'' line
      then (case sscanf_key_lu ''MemFree:'' line of
              Some v \<Rightarrow> st\<lparr>mem_free_kb := v\<rparr> | None \<Rightarrow> st)
      else if prefix ''MemAvailable:'' line
      then (case sscanf_key_lu ''MemAvailable:'' line of
              Some v \<Rightarrow> st\<lparr>mem_available_kb := v\<rparr> | None \<Rightarrow> st)
      else st)"

text \<open>The \<open>while (fgets(line, sizeof(line), fp))\<close> loop over the unread rest of the file.\<close>

function meminfo_loop :: "string \<Rightarrow> SystemState \<Rightarrow> SystemState" where
  "meminfo_loop s st =
     (case fgets 128 s of
        None \<Rightarrow> st
      | Some (line, rest) \<Rightarrow> meminfo_loop rest (meminfo_line (c_str line) st))"
  by pat_completeness auto
termination
proof (relation "measure (\<lambda>(s, st). length s)")
  show "wf (measure (\<lambda>(s, st). length s))" by simp
next
  fix s :: string and st :: SystemState and x2 line rest
  assume "fgets 128 s = Some x2" and "(line, rest) = x2"
  then have "s \<noteq> []" and "rest = drop (length (take_line 127 s)) s"
    by (auto simp: fgets_def Let_def split: if_splits)
  moreover have "take_line 127 s \<noteq> []" if "s \<noteq> []"
    using that by (cases s) auto
  ultimately show "((rest, meminfo_line (c_str line) st), (s, st))
                     \<in> measure (\<lambda>(s, st). length s)"
    by (cases s) auto
qed

declare meminfo_loop.simps [simp del]

text \<open>
  What the loop reads, one piece per successful \<open>fgets\<close>, each seen as a C string: a
  line of the file, or 127 bytes of a longer line.
\<close>

function lines_read :: "string \<Rightarrow> string list" where
  "lines_read s =
     (case fgets 128 s of
        None \<Rightarrow> []
      | Some (line, rest) \<Rightarrow> c_str line # lines_read rest)"
  by pat_completeness auto
termination
proof (relation "measure length")
  show "wf (measure length)" by simp
next
  fix s :: string and x2 line rest
  assume "fgets 128 s = Some x2" and "(line, rest) = x2"
  then have "s \<noteq> []" and "rest = drop (length (take_line 127 s)) s"
    by (auto simp: fgets_def Let_def split: if_splits)
  moreover have "take_line 127 s \<noteq> []" if "s \<noteq> []"
    using that by (cases s) auto
  ultimately show "(rest, s) \<in> measure length"
    by (cases s) auto
qed

declare lines_read.simps [simp del]

definition get_memory_info :: "vfile \<Rightarrow> SystemState \<Rightarrow> SystemState" where
  "get_memory_info meminfo st =
     (case meminfo of
        OpenFails \<Rightarrow> st
      | ReadFails \<Rightarrow> st
      | Bytes content \<Rightarrow> meminfo_loop content st)"

subsection \<open>get_cpu_snapshot\<close>

text \<open>
  \<open>sscanf(buffer, "cpu  %lu %lu %lu %lu %lu %lu %lu %lu", ...)\<close>: the literal \<open>cpu\<close>, white
  space, then up to eight \<open>%lu\<close> conversions, stopping at the first that fails.
  \<open>scan_lus n s\<close> gives the values converted and how the scan ended.
\<close>

fun scan_lus :: "nat \<Rightarrow> string \<Rightarrow> 64 word list \<times> conversion" where
  "scan_lus 0 s = ([], Converted 0 s)"
| "scan_lus (Suc n) s =
     (case scan_lu s of
        Converted v rest \<Rightarrow> (let (vs, e) = scan_lus n rest in (v # vs, e))
      | MatchingFailure \<Rightarrow> ([], MatchingFailure)
      | InputFailure \<Rightarrow> ([], InputFailure))"

text \<open>
  The return value of \<open>sscanf\<close> and the values it assigned, in order. \<open>EOF\<close> (\<open>-1\<close>) is
  returned when the input ends before the first conversion has completed.
\<close>

definition sscanf_cpu :: "string \<Rightarrow> int \<times> 64 word list" where
  "sscanf_cpu buffer =
     (if prefix ''cpu'' buffer
      then (let (vs, e) = scan_lus 8 (dropWhile isspace (drop 3 buffer))
            in (if vs = [] \<and> e = InputFailure then - 1 else int (length vs), vs))
      else if prefix buffer ''cpu'' then (- 1, [])
      else (0, []))"

text \<open>The pointer arguments of the call, in order: the \<open>k\<close>-th value goes to the \<open>k\<close>-th field.\<close>

definition cpu_fields :: "(64 word \<Rightarrow> CpuSnapshot \<Rightarrow> CpuSnapshot) list" where
  "cpu_fields =
     [\<lambda>v s. s\<lparr>user := v\<rparr>, \<lambda>v s. s\<lparr>nice := v\<rparr>, \<lambda>v s. s\<lparr>system := v\<rparr>,
      \<lambda>v s. s\<lparr>idle := v\<rparr>, \<lambda>v s. s\<lparr>iowait := v\<rparr>, \<lambda>v s. s\<lparr>irq := v\<rparr>,
      \<lambda>v s. s\<lparr>softirq := v\<rparr>, \<lambda>v s. s\<lparr>steal := v\<rparr>]"

text \<open>The same fields, read.\<close>

definition cpu_values :: "CpuSnapshot \<Rightarrow> 64 word list" where
  "cpu_values s = [user s, nice s, system s, idle s, iowait s, irq s, softirq s, steal s]"

definition assign_fields :: "64 word list \<Rightarrow> CpuSnapshot \<Rightarrow> CpuSnapshot" where
  "assign_fields vs snapshot = fold (\<lambda>(store, v) s. store v s) (zip cpu_fields vs) snapshot"

text \<open>
  \<open>None\<close> is the return value \<open>-1\<close>; \<open>Some s\<close> is the return value \<open>0\<close> with \<open>s\<close> the
  struct behind the pointer after the call. The buffer holds \<open>BUFFER_SIZE = 1024\<close> bytes.
\<close>

text \<open>What \<open>sscanf\<close> assigns from the first line of a file with the given content.\<close>

definition header_values :: "string \<Rightarrow> 64 word list" where
  "header_values content = snd (sscanf_cpu (c_str (take_line 1023 content)))"

definition get_cpu_snapshot :: "vfile \<Rightarrow> CpuSnapshot \<Rightarrow> CpuSnapshot option" where
  "get_cpu_snapshot stat snapshot =
     (case stat of
        OpenFails \<Rightarrow> None
      | ReadFails \<Rightarrow> None
      | Bytes content \<Rightarrow>
          (case fgets 1024 content of
             None \<Rightarrow> None
           | Some (buffer, _) \<Rightarrow>
               (let (ret, vs) = sscanf_cpu (c_str buffer);
                    snapshot' = assign_fields vs snapshot
                in Some (if ret < 8 then snapshot'\<lparr>steal := 0\<rparr> else snapshot'))))"

subsection \<open>get_uptime\<close>

text \<open>
  \<open>fscanf(fp, "%lf", &uptime)\<close> skips white space, collects the text of a number and
  converts it as \<open>strtod\<close> does. It collects character by character and gives up where
  \<open>strtod\<close> would fall back on a shorter number: when \<open>inf\<close> goes on with an \<open>i\<close> that
  does not complete \<open>infinity\<close>, and when \<open>0x\<close> is followed by neither a hexadecimal
  digit nor a point. \<open>None\<close> is a return value other than \<open>1\<close>: nothing was converted.
\<close>

definition scanf_lf :: "string \<Rightarrow> double option" where
  "scanf_lf s =
     (let s1 = dropWhile isspace s;
          s2 = (if s1 \<noteq> [] \<and> (hd s1 = CHR ''-'' \<or> hd s1 = CHR ''+'') then tl s1 else s1);
          s3 = drop 2 s2
      in if starts_nocase ''infi'' s2 \<and> \<not> starts_nocase ''infinity'' s2 then None
         else if starts_nocase ''0x'' s2 \<and> (s3 = [] \<or> \<not> (isxdigit (hd s3) \<or> hd s3 = CHR ''.''))
         then None
         else parse_double s)"

definition get_uptime :: "vfile \<Rightarrow> double" where
  "get_uptime f =
     (case f of
        OpenFails \<Rightarrow> Finite 0
      | ReadFails \<Rightarrow> Finite 0
      | Bytes content \<Rightarrow>
          (case scanf_lf content of Some uptime \<Rightarrow> uptime | None \<Rightarrow> Finite 0))"

subsection \<open>print_json\<close>

record timespec =
  tv_sec :: "64 word"
  tv_nsec :: "64 word"

text \<open>The last argument of the \<open>snprintf\<close> call.\<close>

definition used_pct :: "SystemState \<Rightarrow> double" where
  "used_pct st =
     (if mem_total_kb st > 0
      then double_mul
             (double_sub (Finite 1)
                (double_div (double_of_u64 (mem_available_kb st))
                   (double_of_u64 (mem_total_kb st))))
             (Finite 100)
      else Finite 0)"

text \<open>The text the format string produces, before it is cut to the buffer.\<close>

definition json_text :: "timespec \<Rightarrow> SystemState \<Rightarrow> string" where
  "json_text ts st =
     ''{''
     @ ''\"timestamp\":'' @ fmt_ld (tv_sec ts) @ ''.'' @ fmt_09ld (tv_nsec ts) @ '',''
     @ ''\"uptime_sec\":'' @ fmt_f 2 (uptime_sec st) @ '',''
     @ ''\"cpu\":{''
     @ ''\"temp_c\":'' @ fmt_f 2 (temp_c st) @ '',''
     @ ''\"usage_pct\":'' @ fmt_f 1 (cpu_usage_percent st)
     @ ''},''
     @ ''\"memory\":{''
     @ ''\"total_kb\":'' @ fmt_lu (mem_total_kb st) @ '',''
     @ ''\"free_kb\":'' @ fmt_lu (mem_free_kb st) @ '',''
     @ ''\"available_kb\":'' @ fmt_lu (mem_available_kb st) @ '',''
     @ ''\"used_pct\":'' @ fmt_f 1 (used_pct st)
     @ ''}''
     @ ''}'' @ [CHR 0x0A]"

text \<open>
  \<open>snprintf\<close> stores at most \<open>JSON_BUFFER_SIZE - 1 = 2047\<close> characters and returns the
  length \<open>len\<close> of the whole text; \<open>len\<close> bytes of the buffer are then passed to
  \<open>write\<close>. \<open>print_json\<close> gives these bytes: the whole text when it fits the buffer.
  The result is \<open>None\<close> when it does not fit (the call then reads past the end of what
  \<open>snprintf\<close> stored, which C leaves undefined).
\<close>

definition print_json :: "timespec \<Rightarrow> SystemState \<Rightarrow> string option" where
  "print_json ts st =
     (let len = length (json_text ts st)
      in if len \<le> 2047 then Some (json_text ts st) else None)"

subsection \<open>main\<close>

text \<open>
  The variables of \<open>main\<close>, and what one pass of the loop reads from its surroundings: the
  four files, the clock, and whether \<open>write\<close> to the standard output succeeds.
\<close>

record Sampler =
  current_state :: SystemState
  prev_cpu_snap :: CpuSnapshot
  curr_cpu_snap :: CpuSnapshot

record Surroundings =
  proc_stat :: vfile
  thermal_zone :: vfile
  proc_uptime :: vfile
  proc_meminfo :: vfile
  clock_realtime :: timespec
  stdout_writable :: bool

text \<open>
  The start of \<open>main\<close>: \<open>current_state = {0}\<close> and the initial snapshot. The two
  snapshot variables are not initialised; their first content is a parameter. \<open>None\<close> is
  \<open>return EXIT_FAILURE\<close>.
\<close>

definition sampler_start :: "vfile \<Rightarrow> CpuSnapshot \<Rightarrow> CpuSnapshot \<Rightarrow> Sampler option" where
  "sampler_start stat prev0 curr0 =
     (case get_cpu_snapshot stat prev0 of
        None \<Rightarrow> None
      | Some p \<Rightarrow>
          Some \<lparr>current_state =
                  \<lparr>temp_c = Finite 0, cpu_usage_percent = Finite 0, mem_total_kb = 0,
                   mem_available_kb = 0, mem_free_kb = 0, uptime_sec = Finite 0\<rparr>,
                prev_cpu_snap = p, curr_cpu_snap = curr0\<rparr>)"

text \<open>The update of the CPU snapshot at the top of the loop body.\<close>

definition update_cpu :: "vfile \<Rightarrow> Sampler \<Rightarrow> Sampler" where
  "update_cpu stat m =
     (case get_cpu_snapshot stat (curr_cpu_snap m) of
        Some c \<Rightarrow>
          m\<lparr>curr_cpu_snap := c,
            current_state :=
              (current_state m)\<lparr>cpu_usage_percent := calculate_cpu_usage (prev_cpu_snap m) c\<rparr>,
            prev_cpu_snap := c\<rparr>
      | None \<Rightarrow>
          m\<lparr>current_state := (current_state m)\<lparr>cpu_usage_percent := Finite (- 1)\<rparr>\<rparr>)"

text \<open>One pass of the loop body after the \<open>sleep\<close>, up to the call of \<open>print_json\<close>.\<close>

definition tick_vars :: "Surroundings \<Rightarrow> Sampler \<Rightarrow> Sampler" where
  "tick_vars env m =
     (let m1 = update_cpu (proc_stat env) m;
          st1 = (current_state m1)\<lparr>temp_c := get_cpu_temperature (thermal_zone env)\<rparr>;
          st2 = st1\<lparr>uptime_sec := get_uptime (proc_uptime env)\<rparr>;
          st3 = get_memory_info (proc_meminfo env) st2
      in m1\<lparr>current_state := st3\<rparr>)"

text \<open>
  The whole pass: the new variables and the line written. \<open>None\<close> is
  \<open>exit(EXIT_FAILURE)\<close> after a failed \<open>write\<close> (or a line that does not fit the buffer).
\<close>

definition tick :: "Surroundings \<Rightarrow> Sampler \<Rightarrow> (Sampler \<times> string) option" where
  "tick env m =
     (let m2 = tick_vars env m
      in case print_json (clock_realtime env) (current_state m2) of
           None \<Rightarrow> None
         | Some line \<Rightarrow> if stdout_writable env then Some (m2, line) else None)"

subsection \<open>Monotone counters\<close>

text \<open>
  Each counter of the current snapshot is at least the one of the previous snapshot
  (unsigned comparison), and by how much the idle and the busy counters grew together.
\<close>

definition counters_monotone :: "CpuSnapshot \<Rightarrow> CpuSnapshot \<Rightarrow> bool" where
  "counters_monotone prev cur =
     (user prev \<le> user cur \<and> nice prev \<le> nice cur \<and> system prev \<le> system cur
      \<and> idle prev \<le> idle cur \<and> iowait prev \<le> iowait cur \<and> irq prev \<le> irq cur
      \<and> softirq prev \<le> softirq cur \<and> steal prev \<le> steal cur)"

definition idle_increase :: "CpuSnapshot \<Rightarrow> CpuSnapshot \<Rightarrow> nat" where
  "idle_increase prev cur =
     (unat (idle cur) - unat (idle prev)) + (unat (iowait cur) - unat (iowait prev))"

definition busy_increase :: "CpuSnapshot \<Rightarrow> CpuSnapshot \<Rightarrow> nat" where
  "busy_increase prev cur =
     (unat (user cur) - unat (user prev)) + (unat (nice cur) - unat (nice prev))
     + (unat (system cur) - unat (system prev)) + (unat (irq cur) - unat (irq prev))
     + (unat (softirq cur) - unat (softirq prev)) + (unat (steal cur) - unat (steal prev))"

section \<open>The dashboard server (monitor_server.c)\<close>

record SystemData =
  uptime :: double
  cpu_temp :: double
  cpu_usage :: double
  mem_total :: "64 word"
  mem_free :: "64 word"
  mem_used_pct :: double

subsection \<open>\<open>strstr\<close> and \<open>strchr\<close>\<close>

text \<open>
  A pointer into the buffer is the text from there to the end of the buffer. \<open>strstr\<close>
  gives the text from the first occurrence of the needle on, \<open>strchr\<close> the text from the
  first occurrence of the character on; \<open>None\<close> is the null pointer.
\<close>

fun strstr :: "string \<Rightarrow> string \<Rightarrow> string option" where
  "strstr [] needle = (if needle = [] then Some [] else None)"
| "strstr (c # cs) needle =
     (if prefix needle (c # cs) then Some (c # cs) else strstr cs needle)"

fun strchr :: "string \<Rightarrow> char \<Rightarrow> string option" where
  "strchr [] c = None"
| "strchr (x # xs) c = (if x = c then Some (x # xs) else strchr xs c)"

subsection \<open>extract_json_value\<close>

text \<open>\<open>search_key\<close> has 64 bytes, so \<open>snprintf\<close> keeps at most 63 characters of the key text.\<close>

definition extract_json_value :: "string \<Rightarrow> string \<Rightarrow> double" where
  "extract_json_value json key =
     (let search_key = take 63 (''\"'' @ key @ ''\":'')
      in case strstr json search_key of
           Some pos \<Rightarrow> strtod (drop (length search_key) pos)
         | None \<Rightarrow> Finite 0)"

subsection \<open>get_latest_data\<close>

definition json_start :: string where
  "json_start = ''{\"timestamp\"''"

text \<open>
  The \<open>while ((next_line = strchr(curr, '\n')))\<close> loop, from the current line start and the
  line retained so far to their values when the loop ends. \<open>next_line > curr\<close> holds when
  the newline found is not the first character at \<open>curr\<close>.
\<close>

function scan_lines :: "string \<Rightarrow> string option \<Rightarrow> string \<times> string option" where
  "scan_lines cur last_line =
     (case strchr cur (CHR 0x0A) of
        None \<Rightarrow> (cur, last_line)
      | Some next_line \<Rightarrow>
          scan_lines (tl next_line)
            (if next_line \<noteq> cur \<and> strstr cur json_start \<noteq> None then Some cur
             else last_line))"
  by pat_completeness auto
termination
proof (relation "measure (\<lambda>(cur, last_line). length cur)")
  show "wf (measure (\<lambda>(cur, last_line). length cur))" by simp
next
  fix cur :: string and last_line :: "string option" and next_line
  assume found: "strchr cur (CHR 0x0A) = Some next_line"
  have "strchr s c = Some t \<Longrightarrow> t \<noteq> [] \<and> length t \<le> length s" for s c t
    by (induction s) (auto split: if_splits)
  from this [OF found] have "length (tl next_line) < length cur"
    by (cases next_line) auto
  then show "((tl next_line,
               if next_line \<noteq> cur \<and> strstr cur json_start \<noteq> None then Some cur
               else last_line),
              (cur, last_line)) \<in> measure (\<lambda>(cur, last_line). length cur)"
    by simp
qed

declare scan_lines.simps [simp del]

text \<open>
  The choice of the line after the buffer is filled: the loop over the complete lines, then
  the test of what follows the last newline. The result points at the start of the chosen
  line; it is \<open>None\<close> when \<open>last_line\<close> stays null.
\<close>

definition find_last_line :: "string \<Rightarrow> string option" where
  "find_last_line buffer =
     (let (cur, retained) = scan_lines buffer None
      in if cur \<noteq> [] \<and> strstr cur json_start \<noteq> None then Some cur else retained)"

text \<open>
  The bytes that \<open>lseek\<close> and \<open>read\<close> deliver from a file with the given content: the
  last \<open>READ_CHUNK_SIZE = 1024\<close> bytes, or the whole file if it is shorter.
\<close>

definition trailing_window :: "string \<Rightarrow> string" where
  "trailing_window content =
     (let file_size = length content;
          seek_pos = (if file_size > 1024 then file_size - 1024 else 0)
      in take 1024 (drop seek_pos content))"

text \<open>The assignments to the fields of \<open>data\<close> from the chosen line.\<close>

definition parse_line :: "string \<Rightarrow> SystemData" where
  "parse_line last_line =
     \<lparr>uptime = extract_json_value last_line ''uptime_sec'',
      cpu_temp = extract_json_value last_line ''temp_c'',
      cpu_usage = extract_json_value last_line ''usage_pct'',
      mem_total = long_of_double (extract_json_value last_line ''total_kb''),
      mem_free = long_of_double (extract_json_value last_line ''free_kb''),
      mem_used_pct = extract_json_value last_line ''used_pct''\<rparr>"

text \<open>
  \<open>None\<close> is the return value \<open>-1\<close>; \<open>Some d\<close> is the return value \<open>0\<close> with \<open>d\<close> the
  struct behind the pointer, all of whose fields the function assigns.
\<close>

definition get_latest_data :: "vfile \<Rightarrow> SystemData option" where
  "get_latest_data monitor_file =
     (case monitor_file of
        OpenFails \<Rightarrow> None
      | ReadFails \<Rightarrow> None
      | Bytes content \<Rightarrow>
          (let file_size = length content
           in if file_size = 0 then None
              else let bytes = trailing_window content;
                       bytes_read = int (length bytes)
                   in if bytes_read \<le> 0 then None
                      else let buffer = c_str bytes
                           in case find_last_line buffer of
                                None \<Rightarrow> None
                              | Some last_line \<Rightarrow> Some (parse_line last_line)))"

section \<open>Properties of rounding\<close>

lemma round_half_even_of_int: "round_half_even (of_int n) = n"
  by (simp add: round_half_even_def)

lemma round_half_even_bounds:
  "\<lfloor>x\<rfloor> \<le> round_half_even x \<and> round_half_even x \<le> \<lfloor>x\<rfloor> + 1"
  by (simp add: round_half_even_def Let_def)

lemma round_half_even_error: "\<bar>of_int (round_half_even x) - x\<bar> \<le> 1 / 2"
proof -
  have "of_int \<lfloor>x\<rfloor> \<le> x" "x < of_int \<lfloor>x\<rfloor> + 1" by linarith+
  then show ?thesis
    by (auto simp: round_half_even_def Let_def)
qed

lemma round_half_even_mono: "x \<le> y \<Longrightarrow> round_half_even x \<le> round_half_even y"
proof -
  assume le: "x \<le> y"
  have fl: "\<lfloor>x\<rfloor> \<le> \<lfloor>y\<rfloor>" using le by (rule floor_mono)
  show ?thesis
  proof (cases "\<lfloor>x\<rfloor> = \<lfloor>y\<rfloor>")
    case True
    with le show ?thesis by (auto simp: round_half_even_def Let_def)
  next
    case False
    with fl have "\<lfloor>x\<rfloor> + 1 \<le> \<lfloor>y\<rfloor>" by simp
    with round_half_even_bounds [of x] round_half_even_bounds [of y] show ?thesis by linarith
  qed
qed

lemma round_half_even_nearest:
  "\<bar>of_int (round_half_even x) - x\<bar> \<le> \<bar>of_int n - x\<bar>"
proof (rule ccontr)
  assume "\<not> ?thesis"
  then have lt: "\<bar>of_int n - x\<bar> < \<bar>of_int (round_half_even x) - x\<bar>" by simp
  with round_half_even_error [of x]
  have "\<bar>real_of_int n - of_int (round_half_even x)\<bar> < 1" by linarith
  then have "\<bar>n - round_half_even x\<bar> < 1" by linarith
  then have "n = round_half_even x" by simp
  with lt show False by simp
qed

lemma round_half_even_minus: "round_half_even (- x) = - round_half_even x"
proof (cases "x = of_int \<lfloor>x\<rfloor>")
  case True
  then obtain n where "x = of_int n" ..
  then have "- x = of_int (- n)" by simp
  then show ?thesis using \<open>x = of_int n\<close> round_half_even_of_int by metis
next
  case False
  have b: "of_int \<lfloor>x\<rfloor> \<le> x" "x < of_int \<lfloor>x\<rfloor> + 1" by linarith+
  from b False have "of_int \<lfloor>x\<rfloor> < x" by linarith
  with b have fm: "\<lfloor>- x\<rfloor> = - \<lfloor>x\<rfloor> - 1" by linarith
  show ?thesis
    using b \<open>of_int \<lfloor>x\<rfloor> < x\<close>
    by (auto simp: round_half_even_def Let_def fm)
qed

lemma log2_floor_bounds:
  assumes "x \<noteq> 0"
  shows "2 powi \<lfloor>log 2 \<bar>x\<bar>\<rfloor> \<le> \<bar>x\<bar>" and "\<bar>x\<bar> < 2 powi (\<lfloor>log 2 \<bar>x\<bar>\<rfloor> + 1)"
  using assms floor_log_eq_powr_iff [of "\<bar>x\<bar>" 2 "\<lfloor>log 2 \<bar>x\<bar>\<rfloor>"]
    powr_real_of_int' [of 2 "\<lfloor>log 2 \<bar>x\<bar>\<rfloor>"] powr_real_of_int' [of 2 "\<lfloor>log 2 \<bar>x\<bar>\<rfloor> + 1"]
  by (simp_all del: of_int_add)

lemma log2_floor_unique:
  assumes "2 powi k \<le> \<bar>x\<bar>" and "\<bar>x\<bar> < 2 powi (k + 1)"
  shows "\<lfloor>log 2 \<bar>x\<bar>\<rfloor> = k"
proof -
  have "0 < \<bar>x\<bar>" using assms(1) zero_less_power_int [of "2::real" k] by linarith
  then show ?thesis
    using assms floor_log_eq_powr_iff [of "\<bar>x\<bar>" 2 k]
      powr_real_of_int' [of 2 k] powr_real_of_int' [of 2 "k + 1"]
    by (simp del: of_int_add)
qed

lemma log2_floor_mono:
  assumes "x \<noteq> 0" and "\<bar>x\<bar> \<le> \<bar>y\<bar>"
  shows "\<lfloor>log 2 \<bar>x\<bar>\<rfloor> \<le> \<lfloor>log 2 \<bar>y\<bar>\<rfloor>"
  using assms by (intro floor_mono) simp

lemma ulp_exponent_mono:
  "x \<noteq> 0 \<Longrightarrow> \<bar>x\<bar> \<le> \<bar>y\<bar> \<Longrightarrow> ulp_exponent x \<le> ulp_exponent y"
  using log2_floor_mono [of x y] by (simp add: ulp_exponent_def)


lemma ulp_exponent_minus: "ulp_exponent (- x) = ulp_exponent x"
  by (simp add: ulp_exponent_def)

lemma round_finite_minus: "round_finite (- x) = - round_finite x"
  using round_half_even_minus [of "x / 2 powi ulp_exponent x"]
  by (simp add: round_finite_def ulp_exponent_minus)

lemma round_finite_zero: "round_finite 0 = 0"
  by (simp add: round_finite_def)

text \<open>A number with at most 53 significant bits above the smallest spacing is kept.\<close>

lemma round_finite_exact:
  assumes "\<bar>m\<bar> < 2 ^ 53" and "- 1074 \<le> e"
  shows "round_finite (of_int m * 2 powi e) = of_int m * 2 powi e"
proof (cases "m = 0")
  case True
  then show ?thesis by (simp add: round_finite_def)
next
  case False
  define x :: real where "x = of_int m * 2 powi e"
  define u where "u = ulp_exponent x"
  have x0: "x \<noteq> 0" using False by (simp add: x_def)
  have "\<bar>x\<bar> = of_int \<bar>m\<bar> * 2 powi e"
    by (simp add: x_def abs_mult)
  also have "\<dots> < 2 ^ 53 * 2 powi e"
    using assms(1) by (intro mult_strict_right_mono) (auto simp: of_int_less_iff [of _ "2 ^ 53", simplified])
  also have "\<dots> = 2 powi (e + 53)"
    by (simp add: power_int_add)
  finally have "\<bar>x\<bar> < 2 powi (e + 53)" .
  with log2_floor_bounds(1) [OF x0] have "(2::real) powi \<lfloor>log 2 \<bar>x\<bar>\<rfloor> < 2 powi (e + 53)"
    by linarith
  then have "\<lfloor>log 2 \<bar>x\<bar>\<rfloor> < e + 53"
    by (smt (verit) power_int_increasing)
  with assms(2) have ue: "u \<le> e" by (simp add: u_def ulp_exponent_def)
  have "x / 2 powi u = of_int m * 2 powi (e - u)"
    by (simp add: x_def power_int_diff)
  also have "\<dots> = of_int (m * 2 ^ nat (e - u))"
    using ue by (simp add: power_int_def)
  finally have "round_half_even (x / 2 powi u) = m * 2 ^ nat (e - u)"
    by (simp only: round_half_even_of_int)
  then have "round_finite x = of_int (m * 2 ^ nat (e - u)) * 2 powi u"
    using x0 by (simp add: round_finite_def u_def)
  also have "\<dots> = of_int m * (2 powi (e - u) * 2 powi u)"
    using ue by (simp add: power_int_def)
  also have "\<dots> = x"
    by (simp add: x_def power_int_diff)
  finally show ?thesis by (simp add: x_def)
qed


text \<open>Rounding never crosses a multiple of the spacing it rounds to.\<close>

lemma round_finite_le_grid:
  assumes "x \<noteq> 0" and "x \<le> of_int N * 2 powi ulp_exponent x"
  shows "round_finite x \<le> of_int N * 2 powi ulp_exponent x"
proof -
  have q: "(0::real) < 2 powi ulp_exponent x" by (simp add: zero_less_power_int)
  from assms(2) q have "x / 2 powi ulp_exponent x \<le> of_int N"
    by (simp add: pos_divide_le_eq)
  from round_half_even_mono [OF this]
  have "round_half_even (x / 2 powi ulp_exponent x) \<le> N"
    by (simp add: round_half_even_of_int)
  then have "real_of_int (round_half_even (x / 2 powi ulp_exponent x)) \<le> of_int N" by simp
  with q show ?thesis
    using assms(1) by (simp add: round_finite_def mult_right_mono)
qed

lemma round_finite_ge_grid:
  assumes "x \<noteq> 0" and "of_int N * 2 powi ulp_exponent x \<le> x"
  shows "of_int N * 2 powi ulp_exponent x \<le> round_finite x"
proof -
  have q: "(0::real) < 2 powi ulp_exponent x" by (simp add: zero_less_power_int)
  from assms(2) q have "of_int N \<le> x / 2 powi ulp_exponent x"
    by (simp add: pos_le_divide_eq)
  from round_half_even_mono [OF this]
  have "N \<le> round_half_even (x / 2 powi ulp_exponent x)"
    by (simp add: round_half_even_of_int)
  then have "real_of_int N \<le> of_int (round_half_even (x / 2 powi ulp_exponent x))" by simp
  with q show ?thesis
    using assms(1) by (simp add: round_finite_def mult_right_mono)
qed

lemma round_finite_nonneg: "0 \<le> x \<Longrightarrow> 0 \<le> round_finite x"
  using round_finite_ge_grid [of x 0] by (cases "x = 0") (simp_all add: round_finite_zero)

text \<open>A power of two at or above the spacing of \<open>x\<close> is a multiple of that spacing.\<close>

lemma power_on_grid:
  assumes "u \<le> k"
  shows "(2::real) powi k = of_int (2 ^ nat (k - u)) * 2 powi u"
proof -
  have "(2::real) powi k = 2 powi (k - u) * 2 powi u"
    by (simp add: power_int_diff)
  also have "(2::real) powi (k - u) = of_int (2 ^ nat (k - u))"
    using assms by (simp add: power_int_def)
  finally show ?thesis .
qed

lemma round_finite_mono_pos:
  assumes "0 < x" and "x \<le> y"
  shows "round_finite x \<le> round_finite y"
proof -
  have x0: "x \<noteq> 0" and y0: "y \<noteq> 0" using assms by auto
  have ule: "ulp_exponent x \<le> ulp_exponent y"
    using assms by (intro ulp_exponent_mono) auto
  show ?thesis
  proof (cases "ulp_exponent x = ulp_exponent y")
    case True
    have q: "(0::real) < 2 powi ulp_exponent y" by (simp add: zero_less_power_int)
    with assms(2) have "x / 2 powi ulp_exponent y \<le> y / 2 powi ulp_exponent y"
      by (simp add: divide_right_mono)
    from round_half_even_mono [OF this] q show ?thesis
      using x0 y0 True by (simp add: round_finite_def mult_right_mono)
  next
    case False
    with ule have ult: "ulp_exponent x < ulp_exponent y" by simp
    define k where "k = \<lfloor>log 2 \<bar>y\<bar>\<rfloor>"
    from ult have uy: "ulp_exponent y = k - 52" and kx: "\<lfloor>log 2 \<bar>x\<bar>\<rfloor> < k"
      by (auto simp: ulp_exponent_def k_def max_def split: if_splits)
    have "\<bar>x\<bar> < 2 powi (\<lfloor>log 2 \<bar>x\<bar>\<rfloor> + 1)" using log2_floor_bounds(2) [OF x0] .
    also have "\<dots> \<le> 2 powi k" using kx by (intro power_int_increasing) auto
    finally have xk: "x \<le> 2 powi k" by simp
    have ky: "2 powi k \<le> y" using log2_floor_bounds(1) [OF y0] assms by (simp add: k_def)
    have "ulp_exponent x \<le> k" using ult uy by simp
    from power_on_grid [OF this] xk round_finite_le_grid [OF x0, of "2 ^ nat (k - ulp_exponent x)"]
    have 1: "round_finite x \<le> 2 powi k" by simp
    have "ulp_exponent y \<le> k" using uy by simp
    from power_on_grid [OF this] ky round_finite_ge_grid [OF y0, of "2 ^ nat (k - ulp_exponent y)"]
    have 2: "2 powi k \<le> round_finite y" by simp
    from 1 2 show ?thesis by simp
  qed
qed

lemma round_finite_mono:
  assumes "x \<le> y"
  shows "round_finite x \<le> round_finite y"
proof -
  consider "0 < x" | "x \<le> 0" "0 \<le> y" | "y < 0" by linarith
  then show ?thesis
  proof cases
    case 1
    then show ?thesis using assms by (rule round_finite_mono_pos)
  next
    case 2
    have "round_finite x = - round_finite (- x)" by (simp add: round_finite_minus)
    also have "\<dots> \<le> 0" using 2 round_finite_nonneg [of "- x"] by simp
    also have "\<dots> \<le> round_finite y" using 2 by (simp add: round_finite_nonneg)
    finally show ?thesis .
  next
    case 3
    with assms have "round_finite (- y) \<le> round_finite (- x)"
      by (intro round_finite_mono_pos) auto
    then show ?thesis by (simp add: round_finite_minus)
  qed
qed

text \<open>
  The rounded value is a nearest representable number: no number that rounding keeps is
  closer.
\<close>

lemma abs_scale:
  fixes a q y :: real
  assumes "0 < q"
  shows "\<bar>a * q - y\<bar> = \<bar>a - y / q\<bar> * q"
proof -
  have "a * q - y = (a - y / q) * q" using assms by (simp add: left_diff_distrib)
  then show ?thesis using assms by (simp add: abs_mult)
qed

lemma round_finite_nearest_pos:
  assumes "0 < y" and "round_finite d = d"
  shows "\<bar>round_finite y - y\<bar> \<le> \<bar>d - y\<bar>"
proof -
  have y0: "y \<noteq> 0" using assms by auto
  define q :: real where "q = 2 powi ulp_exponent y"
  have q: "0 < q" by (simp add: q_def zero_less_power_int)
  have grid: "\<bar>round_finite y - y\<bar> \<le> \<bar>of_int n * q - y\<bar>" for n
  proof -
    have "\<bar>round_finite y - y\<bar> = \<bar>of_int (round_half_even (y / q)) - y / q\<bar> * q"
      using y0 abs_scale [OF q] by (simp add: round_finite_def q_def)
    also have "\<dots> \<le> \<bar>of_int n - y / q\<bar> * q"
      using q round_half_even_nearest [of "y / q" n] by (simp add: mult_right_mono)
    also have "\<dots> = \<bar>of_int n * q - y\<bar>"
      using abs_scale [OF q] by simp
    finally show ?thesis .
  qed
  show ?thesis
  proof (cases "d = 0 \<or> ulp_exponent y \<le> ulp_exponent d")
    case True
    then have "\<exists>n. d = of_int n * q"
    proof
      assume "d = 0"
      then have "d = of_int 0 * q" by simp
      then show ?thesis ..
    next
      assume le: "ulp_exponent y \<le> ulp_exponent d"
      show ?thesis
      proof (cases "d = 0")
        case True
        then have "d = of_int 0 * q" by simp
        then show ?thesis ..
      next
        case False
        define r where "r = round_half_even (d / 2 powi ulp_exponent d)"
        have "d = of_int r * 2 powi ulp_exponent d"
          using assms(2) False by (simp add: round_finite_def r_def)
        also have "\<dots> = of_int r * (of_int (2 ^ nat (ulp_exponent d - ulp_exponent y)) * q)"
          using power_on_grid [OF le] by (simp add: q_def)
        also have "\<dots> = of_int (r * 2 ^ nat (ulp_exponent d - ulp_exponent y)) * q"
          by simp
        finally show ?thesis ..
      qed
    qed
    then obtain n where "d = of_int n * q" ..
    with grid [of n] show ?thesis by simp
  next
    case False
    then have d0: "d \<noteq> 0" and ult: "ulp_exponent d < ulp_exponent y" by auto
    define k where "k = \<lfloor>log 2 \<bar>y\<bar>\<rfloor>"
    from ult have uy: "ulp_exponent y = k - 52" and kd: "\<lfloor>log 2 \<bar>d\<bar>\<rfloor> < k"
      by (auto simp: ulp_exponent_def k_def max_def split: if_splits)
    have "\<bar>d\<bar> < 2 powi (\<lfloor>log 2 \<bar>d\<bar>\<rfloor> + 1)" using log2_floor_bounds(2) [OF d0] .
    also have "\<dots> \<le> 2 powi k" using kd by (intro power_int_increasing) auto
    finally have dk: "d < 2 powi k" by simp
    have ky: "2 powi k \<le> y" using log2_floor_bounds(1) [OF y0] assms by (simp add: k_def)
    have "ulp_exponent y \<le> k" using uy by simp
    from power_on_grid [OF this] grid [of "2 ^ nat (k - ulp_exponent y)"]
    have "\<bar>round_finite y - y\<bar> \<le> \<bar>2 powi k - y\<bar>" by (simp add: q_def)
    also have "\<dots> \<le> \<bar>d - y\<bar>" using dk ky by simp
    finally show ?thesis .
  qed
qed

lemma round_finite_nearest:
  assumes "round_finite d = d"
  shows "\<bar>round_finite y - y\<bar> \<le> \<bar>d - y\<bar>"
proof -
  consider "0 < y" | "y = 0" | "y < 0" by linarith
  then show ?thesis
  proof cases
    case 1
    then show ?thesis using assms by (rule round_finite_nearest_pos)
  next
    case 2
    then show ?thesis by (simp add: round_finite_zero)
  next
    case 3
    have "round_finite (- d) = - d" using assms by (simp add: round_finite_minus)
    with 3 round_finite_nearest_pos [of "- y" "- d"]
    have "\<bar>round_finite (- y) - (- y)\<bar> \<le> \<bar>- d - (- y)\<bar>" by simp
    then show ?thesis by (simp add: round_finite_minus)
  qed
qed


lemma round_finite_of_int:
  assumes "\<bar>n\<bar> \<le> 2 ^ 53"
  shows "round_finite (of_int n) = of_int n"
proof (cases "\<bar>n\<bar> = 2 ^ 53")
  case True
  then have "n = 2 ^ 53 \<or> n = - (2 ^ 53)" by linarith
  then have "real_of_int n = of_int (if 0 \<le> n then 1 else - 1) * 2 powi 53"
    by auto
  then show ?thesis
    using round_finite_exact [of "if 0 \<le> n then 1 else - 1" 53] by simp
next
  case False
  with assms have "\<bar>n\<bar> < 2 ^ 53" by simp
  from round_finite_exact [OF this, of 0] show ?thesis by simp
qed

lemma round_finite_power2:
  "round_finite (2 ^ k) = 2 ^ k"
  using round_finite_exact [of 1 "int k"] by simp

lemma round_double_in_range:
  assumes "lo \<le> x" and "x \<le> hi"
    and "round_finite lo = lo" and "round_finite hi = hi"
    and "- (2 ^ 1024) < lo" and "hi < 2 ^ 1024"
  shows "round_double x = Finite (round_finite x)"
    and "lo \<le> round_finite x" and "round_finite x \<le> hi"
proof -
  show lo: "lo \<le> round_finite x"
    using round_finite_mono [OF assms(1)] assms(3) by simp
  show hi: "round_finite x \<le> hi"
    using round_finite_mono [OF assms(2)] assms(4) by simp
  from lo hi assms(5,6) show "round_double x = Finite (round_finite x)"
    by (simp add: round_double_def Let_def)
qed

lemma round_double_exact:
  assumes "round_finite x = x" and "\<bar>x\<bar> < 2 ^ 1024"
  shows "round_double x = Finite x"
  using assms by (auto simp: round_double_def Let_def)

lemma round_double_of_int:
  assumes "\<bar>n\<bar> \<le> 2 ^ 53"
  shows "round_double (of_int n) = Finite (of_int n)"
proof -
  have "\<bar>real_of_int n\<bar> \<le> 2 ^ 53"
    using assms by (metis of_int_abs of_int_le_iff of_int_numeral of_int_power)
  also have "\<dots> < (2::real) ^ 1024" by simp
  finally show ?thesis
    using round_finite_of_int [OF assms] by (intro round_double_exact) auto
qed

lemma double_of_u64_range:
  "double_of_u64 w = Finite (round_finite (real (unat w)))"
  "0 \<le> round_finite (real (unat w))"
  "round_finite (real (unat w)) \<le> 2 ^ 64"
proof -
  have "unat w < 2 ^ 64" using unsigned_less [of w] by simp
  then have le: "real (unat w) \<le> 2 ^ 64"
    by (metis less_imp_le of_nat_le_iff of_nat_numeral of_nat_power)
  have r0: "round_finite 0 = 0" by (rule round_finite_zero)
  have r64: "round_finite (2 ^ 64) = 2 ^ 64" by (rule round_finite_power2)
  have ge: "0 \<le> real (unat w)" by (rule of_nat_0_le_iff)
  from round_double_in_range [OF ge le r0 r64]
  show "double_of_u64 w = Finite (round_finite (real (unat w)))"
    "0 \<le> round_finite (real (unat w))"
    "round_finite (real (unat w)) \<le> 2 ^ 64"
    by (simp_all add: double_of_u64_def)
qed



section \<open>Properties of the conversions\<close>

lemma digit_char_props:
  assumes "d < 10"
  shows "isdigit (digit_char d)" and "digit_val (digit_char d) = d"
proof -
  from assms have "d \<in> {0, 1, 2, 3, 4, 5, 6, 7, 8, 9}" by auto
  then show "isdigit (digit_char d)" and "digit_val (digit_char d) = d"
    by (auto simp: digit_char_def isdigit_def digit_val_def)
qed

lemma nat_of_digits_snoc: "nat_of_digits (ds @ [c]) = 10 * nat_of_digits ds + digit_val c"
  by (simp add: nat_of_digits_def)

lemma dec_props: "list_all isdigit (dec n) \<and> nat_of_digits (dec n) = n \<and> dec n \<noteq> []"
proof (induction n rule: dec.induct)
  case (1 n)
  show ?case
  proof (cases "n < 10")
    case True
    then show ?thesis
      by (subst (1 2 3) dec.simps) (simp add: digit_char_props nat_of_digits_def)
  next
    case False
    with 1 have ih: "list_all isdigit (dec (n div 10))" "nat_of_digits (dec (n div 10)) = n div 10"
      by simp_all
    have "n mod 10 < 10" by simp
    note d = digit_char_props [OF this]
    from False ih d show ?thesis
      by (subst (1 2 3) dec.simps) (simp add: nat_of_digits_snoc)
  qed
qed

lemma length_dec: "n < 10 ^ k \<Longrightarrow> 0 < k \<Longrightarrow> length (dec n) \<le> k"
proof (induction n arbitrary: k rule: dec.induct)
  case (1 n)
  show ?case
  proof (cases "n < 10")
    case True
    with 1(3) show ?thesis by (subst dec.simps) simp
  next
    case False
    from 1(3) obtain j where k: "k = Suc j" by (cases k) auto
    with False 1(2) have "0 < j" by (cases j) auto
    moreover from 1(2) k have "n div 10 < 10 ^ j"
      by (simp add: less_mult_imp_div_less mult.commute)
    ultimately have "length (dec (n div 10)) \<le> j" using 1(1) [OF False] by simp
    with False k show ?thesis by (subst dec.simps) simp
  qed
qed

lemma isdigit_facts:
  assumes "isdigit c"
  shows "\<not> isspace c" and "c \<noteq> CHR ''-''" and "c \<noteq> CHR ''+''" and "c \<noteq> CHR 0x00"
    and "c \<noteq> CHR ''.''" and "c \<noteq> CHR '',''" and "c \<noteq> CHR ''}''"
  using assms by (auto simp: isdigit_def isspace_def)

lemma takeWhile_digits:
  assumes "list_all isdigit ds" and "rest = [] \<or> \<not> isdigit (hd rest)"
  shows "takeWhile isdigit (ds @ rest) = ds" and "dropWhile isdigit (ds @ rest) = rest"
proof -
  from assms(2) have "takeWhile isdigit rest = []" "dropWhile isdigit rest = rest"
    by (cases rest; simp)+
  with assms(1) show "takeWhile isdigit (ds @ rest) = ds" "dropWhile isdigit (ds @ rest) = rest"
    by (simp_all add: list_all_iff takeWhile_append2 dropWhile_append2)
qed

lemma round_double_zero: "round_double 0 = Finite 0"
  by (simp add: round_double_def round_finite_zero)

lemma scan_lus_numeral:
  "scan_lus (numeral k) s =
     (case scan_lu s of
        Converted v rest \<Rightarrow> (let (vs, e) = scan_lus (pred_numeral k) rest in (v # vs, e))
      | MatchingFailure \<Rightarrow> ([], MatchingFailure)
      | InputFailure \<Rightarrow> ([], InputFailure))"
  by (simp add: numeral_eq_Suc)

lemmas scan_eval =
  scan_lu_def isspace_def isdigit_def nat_of_digits_def digit_val_def strtoul_value_def Let_def

lemma replicate_num: "replicate (numeral k) x = x # replicate (pred_numeral k) x"
  by (simp add: numeral_eq_Suc)


section \<open>Properties of the sampler\<close>

text \<open>
  C1. Two snapshots with equal totals give exactly \<open>0.0\<close>: the test on \<open>total_diff\<close>
  returns before the division is reached, so no division by zero takes place (it would
  have produced an infinity or a NaN, see \<open>double_div\<close>). A duplicate read is the case
  \<open>cur = prev\<close> (\<open>curr\<close> in the source).
\<close>

theorem calculate_cpu_usage_equal_totals:
  "cpu_total prev = cpu_total cur \<Longrightarrow> calculate_cpu_usage prev cur = Finite 0"
  by (simp add: calculate_cpu_usage_def cpu_total_def Let_def)

theorem calculate_cpu_usage_equal_totals_witness:
  "cpu_total \<lparr>user = 100, nice = 0, system = 50, idle = 800, iowait = 50, irq = 0,
              softirq = 0, steal = 0\<rparr>
   = cpu_total \<lparr>user = 100, nice = 0, system = 50, idle = 800, iowait = 50, irq = 0,
                softirq = 0, steal = 0\<rparr>
   \<and> calculate_cpu_usage
         \<lparr>user = 100, nice = 0, system = 50, idle = 800, iowait = 50, irq = 0,
          softirq = 0, steal = 0\<rparr>
         \<lparr>user = 100, nice = 0, system = 50, idle = 800, iowait = 50, irq = 0,
          softirq = 0, steal = 0\<rparr> = Finite 0"
  using calculate_cpu_usage_equal_totals
    [of "\<lparr>user = 100, nice = 0, system = 50, idle = 800, iowait = 50, irq = 0,
          softirq = 0, steal = 0\<rparr>"
        "\<lparr>user = 100, nice = 0, system = 50, idle = 800, iowait = 50, irq = 0,
          softirq = 0, steal = 0\<rparr>"]
  by simp

subsection \<open>The range of the usage\<close>

lemma word_diff_of_nat:
  fixes a b :: "64 word"
  assumes "a \<le> b"
  shows "b - a = of_nat (unat b - unat a)"
proof -
  have "unat (b - a) = unat b - unat a" using assms by (rule unat_sub)
  then have "word_of_nat (unat (b - a)) = (word_of_nat (unat b - unat a) :: 64 word)" by simp
  then show ?thesis by simp
qed

lemma unat_of_nat64: "n < 2 ^ 64 \<Longrightarrow> unat (of_nat n :: 64 word) = n"
  by (simp add: unat_of_nat)

lemma usage_operands:
  assumes "counters_monotone prev cur"
    and "idle_increase prev cur + busy_increase prev cur < 2 ^ 64"
  shows "calculate_cpu_usage prev cur =
     (if idle_increase prev cur + busy_increase prev cur = 0 then Finite 0
      else double_mul
             (double_div (round_double (real (busy_increase prev cur)))
                (round_double (real (idle_increase prev cur + busy_increase prev cur))))
             (Finite 100))"
proof -
  define total_diff where
    "total_diff = (idle cur + iowait cur + (user cur + nice cur + system cur + irq cur
                     + softirq cur + steal cur))
                  - (idle prev + iowait prev + (user prev + nice prev + system prev + irq prev
                     + softirq prev + steal prev))"
  define idle_diff where "idle_diff = (idle cur + iowait cur) - (idle prev + iowait prev)"
  have m: "user prev \<le> user cur" "nice prev \<le> nice cur" "system prev \<le> system cur"
    "idle prev \<le> idle cur" "iowait prev \<le> iowait cur" "irq prev \<le> irq cur"
    "softirq prev \<le> softirq cur" "steal prev \<le> steal cur"
    using assms(1) by (simp_all add: counters_monotone_def)
  have "idle_diff = (idle cur - idle prev) + (iowait cur - iowait prev)"
    by (simp add: idle_diff_def)
  also have "\<dots> = of_nat (idle_increase prev cur)"
    by (simp add: idle_increase_def word_diff_of_nat m)
  finally have idle: "idle_diff = of_nat (idle_increase prev cur)" .
  have "total_diff - idle_diff =
          (user cur - user prev) + (nice cur - nice prev) + (system cur - system prev)
          + (irq cur - irq prev) + (softirq cur - softirq prev) + (steal cur - steal prev)"
    by (simp add: total_diff_def idle_diff_def)
  also have "\<dots> = of_nat (busy_increase prev cur)"
    by (simp add: busy_increase_def word_diff_of_nat m)
  finally have busy: "total_diff - idle_diff = of_nat (busy_increase prev cur)" .
  then have "total_diff = of_nat (busy_increase prev cur) + of_nat (idle_increase prev cur)"
    using idle by (metis diff_add_cancel)
  then have total: "total_diff = of_nat (idle_increase prev cur + busy_increase prev cur)"
    by simp
  have ub: "unat (total_diff - idle_diff) = busy_increase prev cur"
    unfolding busy using assms(2) by (intro unat_of_nat64) simp
  have ut: "unat total_diff = idle_increase prev cur + busy_increase prev cur"
    unfolding total using assms(2) by (rule unat_of_nat64)
  have z: "total_diff = 0 \<longleftrightarrow> idle_increase prev cur + busy_increase prev cur = 0"
    using ut by (metis unat_eq_0)
  show ?thesis
    unfolding calculate_cpu_usage_def Let_def
    unfolding total_diff_def [symmetric] idle_diff_def [symmetric]
    by (simp only: z double_of_u64_def ub ut)
qed


text \<open>
  C5 (amended). When every counter of the current snapshot is at least the one of the
  previous snapshot and the eight increases together stay below \<open>2 ^ 64\<close>, the usage
  is a finite value between \<open>0.0\<close> and \<open>100.0\<close>.
\<close>

theorem calculate_cpu_usage_monotone_range:
  assumes "counters_monotone prev cur"
    and "idle_increase prev cur + busy_increase prev cur < 2 ^ 64"
  shows "\<exists>v. calculate_cpu_usage prev cur = Finite v \<and> 0 \<le> v \<and> v \<le> 100"
proof (cases "idle_increase prev cur + busy_increase prev cur = 0")
  case True
  then show ?thesis using usage_operands [OF assms] by simp
next
  case False
  define a where "a = real (busy_increase prev cur)"
  define b where "b = real (idle_increase prev cur + busy_increase prev cur)"
  have "1 \<le> idle_increase prev cur + busy_increase prev cur" using False by linarith
  then have "real 1 \<le> b" unfolding b_def by (rule of_nat_mono)
  then have ab: "0 \<le> a" "a \<le> b" "1 \<le> b" by (simp_all add: a_def b_def)
  have "idle_increase prev cur + busy_increase prev cur \<le> 2 ^ 64" using assms(2) by simp
  then have b64: "b \<le> 2 ^ 64"
    unfolding b_def by (metis of_nat_le_iff of_nat_numeral of_nat_power)
  have r0: "round_finite 0 = 0" by (rule round_finite_zero)
  have r1: "round_finite 1 = 1" using round_finite_power2 [of 0] by simp
  have r64: "round_finite (2 ^ 64) = 2 ^ 64" by (rule round_finite_power2)
  have r100: "round_finite 100 = 100" using round_finite_of_int [of 100] by simp
  have a64: "a \<le> 2 ^ 64" using ab b64 by simp
  note ra = round_double_in_range [OF ab(1) a64 r0 r64]
  note rb = round_double_in_range [OF ab(3) b64 r1 r64]
  have rab: "round_finite a \<le> round_finite b" using ab(2) by (rule round_finite_mono)
  define q where "q = round_finite a / round_finite b"
  have q: "0 \<le> q" "q \<le> 1" using ra(2) rb(2) rab by (simp_all add: q_def)
  note rq = round_double_in_range [OF q r0 r1]
  have p: "0 \<le> round_finite q * 100" "round_finite q * 100 \<le> 100" using rq(2,3) by simp_all
  note rp = round_double_in_range [OF p r0 r100]
  have "calculate_cpu_usage prev cur =
          double_mul (double_div (round_double a) (round_double b)) (Finite 100)"
    unfolding a_def b_def using False by (simp only: usage_operands [OF assms] if_False)
  also have "\<dots> = double_mul (round_double q) (Finite 100)"
    using ra(1) rb(1,2) by (simp add: q_def)
  also have "\<dots> = Finite (round_finite (round_finite q * 100))"
    using rq(1) rp(1) by simp
  finally show ?thesis using rp(2,3) by simp
qed


theorem calculate_cpu_usage_monotone_range_witness:
  "counters_monotone
     \<lparr>user = 100, nice = 0, system = 50, idle = 800, iowait = 50, irq = 0, softirq = 0,
      steal = 0\<rparr>
     \<lparr>user = 110, nice = 0, system = 60, idle = 810, iowait = 50, irq = 0, softirq = 0,
      steal = 0\<rparr>
   \<and> idle_increase
       \<lparr>user = 100, nice = 0, system = 50, idle = 800, iowait = 50, irq = 0, softirq = 0,
        steal = 0\<rparr>
       \<lparr>user = 110, nice = 0, system = 60, idle = 810, iowait = 50, irq = 0, softirq = 0,
        steal = 0\<rparr>
     + busy_increase
         \<lparr>user = 100, nice = 0, system = 50, idle = 800, iowait = 50, irq = 0, softirq = 0,
          steal = 0\<rparr>
         \<lparr>user = 110, nice = 0, system = 60, idle = 810, iowait = 50, irq = 0, softirq = 0,
          steal = 0\<rparr> < 2 ^ 64
   \<and> (\<exists>v. calculate_cpu_usage
            \<lparr>user = 100, nice = 0, system = 50, idle = 800, iowait = 50, irq = 0,
             softirq = 0, steal = 0\<rparr>
            \<lparr>user = 110, nice = 0, system = 60, idle = 810, iowait = 50, irq = 0,
             softirq = 0, steal = 0\<rparr> = Finite v \<and> 0 \<le> v \<and> v \<le> 100)"
proof -
  let ?p = "\<lparr>user = 100, nice = 0, system = 50, idle = 800, iowait = 50, irq = 0,
             softirq = 0, steal = (0::64 word)\<rparr>"
  let ?c = "\<lparr>user = 110, nice = 0, system = 60, idle = 810, iowait = 50, irq = 0,
             softirq = 0, steal = (0::64 word)\<rparr>"
  have m: "counters_monotone ?p ?c" by (simp add: counters_monotone_def)
  have i: "idle_increase ?p ?c + busy_increase ?p ?c < 2 ^ 64"
    by (simp add: idle_increase_def busy_increase_def)
  from m i calculate_cpu_usage_monotone_range [OF m i] show ?thesis by blast
qed

text \<open>
  As stated for all pairs of snapshots with monotone counters, the claim fails where the
  \<open>uint64_t\<close> total wraps: monotone counters, and a result of \<open>200.0\<close>.
\<close>

theorem calculate_cpu_usage_wrap_counterexample:
  "counters_monotone
     \<lparr>user = 0, nice = 0, system = 0, idle = 0, iowait = 0, irq = 0, softirq = 0, steal = 0\<rparr>
     \<lparr>user = 2, nice = 0, system = 0, idle = 18446744073709551615, iowait = 0, irq = 0,
      softirq = 0, steal = 0\<rparr>
   \<and> calculate_cpu_usage
       \<lparr>user = 0, nice = 0, system = 0, idle = 0, iowait = 0, irq = 0, softirq = 0, steal = 0\<rparr>
       \<lparr>user = 2, nice = 0, system = 0, idle = 18446744073709551615, iowait = 0, irq = 0,
        softirq = 0, steal = 0\<rparr> = Finite 200"
proof -
  have r: "round_double 1 = Finite 1" "round_double 2 = Finite 2" "round_double 200 = Finite 200"
    using round_double_of_int [of 1] round_double_of_int [of 2] round_double_of_int [of 200]
    by simp_all
  show ?thesis
    by (simp add: counters_monotone_def calculate_cpu_usage_def double_of_u64_def r)
qed

subsection \<open>The loop body and the CPU snapshot\<close>

lemma meminfo_line_frame:
  "temp_c (meminfo_line l st) = temp_c st"
  "cpu_usage_percent (meminfo_line l st) = cpu_usage_percent st"
  "uptime_sec (meminfo_line l st) = uptime_sec st"
  by (simp_all add: meminfo_line_def split: option.splits)

lemma meminfo_loop_frame:
  "temp_c (meminfo_loop s st) = temp_c st
   \<and> cpu_usage_percent (meminfo_loop s st) = cpu_usage_percent st
   \<and> uptime_sec (meminfo_loop s st) = uptime_sec st"
proof (induction s st rule: meminfo_loop.induct)
  case (1 s st)
  show ?case
  proof (cases "fgets 128 s")
    case None
    then show ?thesis by (subst (1 2 3) meminfo_loop.simps) simp
  next
    case (Some a)
    obtain line rest where a: "a = (line, rest)" by (cases a)
    from 1 [OF Some a [symmetric]] Some a show ?thesis
      by (subst (1 2 3) meminfo_loop.simps) (simp add: meminfo_line_frame)
  qed
qed

lemma get_memory_info_other_fields:
  "temp_c (get_memory_info f st) = temp_c st"
  "cpu_usage_percent (get_memory_info f st) = cpu_usage_percent st"
  "uptime_sec (get_memory_info f st) = uptime_sec st"
  by (simp_all add: get_memory_info_def meminfo_loop_frame split: vfile.splits)





subsection \<open>get_cpu_snapshot\<close>

lemma scan_lus_length: "scan_lus n s = (vs, e) \<Longrightarrow> length vs \<le> n"
  by (induction n arbitrary: s vs e) (auto split: conversion.splits prod.splits)

lemma sscanf_cpu_count:
  "length (snd (sscanf_cpu b)) \<le> 8"
  "fst (sscanf_cpu b) < 8 \<longleftrightarrow> length (snd (sscanf_cpu b)) < 8"
proof -
  obtain vs e where r: "scan_lus 8 (dropWhile isspace (drop 3 b)) = (vs, e)"
    by (cases "scan_lus 8 (dropWhile isspace (drop 3 b))")
  from scan_lus_length [OF r] r
  show "length (snd (sscanf_cpu b)) \<le> 8"
    and "fst (sscanf_cpu b) < 8 \<longleftrightarrow> length (snd (sscanf_cpu b)) < 8"
    by (auto simp: sscanf_cpu_def)
qed

lemma list_upto_8:
  assumes "length (vs :: 'a list) \<le> 8"
  shows "\<exists>a b c d e f g h.
           vs = [] \<or> vs = [a] \<or> vs = [a, b] \<or> vs = [a, b, c] \<or> vs = [a, b, c, d]
           \<or> vs = [a, b, c, d, e] \<or> vs = [a, b, c, d, e, f] \<or> vs = [a, b, c, d, e, f, g]
           \<or> vs = [a, b, c, d, e, f, g, h]"
  using assms by (auto simp: numeral_eq_Suc le_Suc_eq length_Suc_conv)

lemma assign_fields_values:
  assumes "length vs \<le> 8"
  shows "take (length vs) (cpu_values (assign_fields vs s)) = vs"
    and "drop (length vs) (cpu_values (assign_fields vs s)) = drop (length vs) (cpu_values s)"
proof -
  from list_upto_8 [OF assms] obtain a b c d e f g h where
    "vs = [] \<or> vs = [a] \<or> vs = [a, b] \<or> vs = [a, b, c] \<or> vs = [a, b, c, d]
     \<or> vs = [a, b, c, d, e] \<or> vs = [a, b, c, d, e, f] \<or> vs = [a, b, c, d, e, f, g]
     \<or> vs = [a, b, c, d, e, f, g, h]" by blast
  then show "take (length vs) (cpu_values (assign_fields vs s)) = vs"
    and "drop (length vs) (cpu_values (assign_fields vs s)) = drop (length vs) (cpu_values s)"
    by (auto simp: assign_fields_def cpu_fields_def cpu_values_def)
qed

lemma get_cpu_snapshot_bytes:
  assumes "content \<noteq> []"
  shows "get_cpu_snapshot (Bytes content) snap =
           Some (if length (header_values content) < 8
                 then (assign_fields (header_values content) snap)\<lparr>steal := 0\<rparr>
                 else assign_fields (header_values content) snap)"
proof -
  obtain ret vs where r: "sscanf_cpu (c_str (take_line 1023 content)) = (ret, vs)"
    by (cases "sscanf_cpu (c_str (take_line 1023 content))")
  with sscanf_cpu_count(2) [of "c_str (take_line 1023 content)"]
  have "ret < 8 \<longleftrightarrow> length vs < 8" by simp
  with assms r show ?thesis
    by (simp add: get_cpu_snapshot_def fgets_def header_values_def Let_def)
qed

text \<open>
  C2 (amended). \<open>get_cpu_snapshot\<close> fails exactly when the statistics file cannot be
  opened or no first line can be read from it (a read failure or an empty file). Every
  other read succeeds, however few fields parse from the header line: the fields that
  parse are stored in order, and \<open>steal\<close> is set to \<open>0\<close> whenever fewer than eight
  parse.
\<close>

theorem get_cpu_snapshot_result:
  "((get_cpu_snapshot stat snap = None) = (stat = OpenFails \<or> stat = ReadFails \<or> stat = Bytes []))
   \<and> (\<forall>content s'. stat = Bytes content \<and> get_cpu_snapshot stat snap = Some s' \<longrightarrow>
         take (length (header_values content)) (cpu_values s') = header_values content
         \<and> (length (header_values content) < 8 \<longrightarrow> steal s' = 0))"
proof (intro conjI allI impI)
  show "(get_cpu_snapshot stat snap = None) = (stat = OpenFails \<or> stat = ReadFails \<or> stat = Bytes [])"
  proof (cases stat)
    case (Bytes content)
    then show ?thesis
      using get_cpu_snapshot_bytes [of content snap]
      by (cases "content = []") (simp_all add: get_cpu_snapshot_def fgets_def)
  qed (simp_all add: get_cpu_snapshot_def)
next
  fix content s'
  assume a: "stat = Bytes content \<and> get_cpu_snapshot stat snap = Some s'"
  then have ne: "content \<noteq> []" by (auto simp: get_cpu_snapshot_def fgets_def)
  define hv where "hv = header_values content"
  have len: "length hv \<le> 8" by (simp add: hv_def header_values_def sscanf_cpu_count(1))
  from a have "get_cpu_snapshot (Bytes content) snap = Some s'" by blast
  then have s': "s' = (if length hv < 8 then (assign_fields hv snap)\<lparr>steal := 0\<rparr>
                  else assign_fields hv snap)"
    unfolding get_cpu_snapshot_bytes [OF ne, of snap] hv_def by simp
  have "take (length hv) (cpu_values ((assign_fields hv snap)\<lparr>steal := 0\<rparr>))
          = take (length hv) (cpu_values (assign_fields hv snap))" if "length hv < 8"
  proof -
    have "take k (xs @ [x]) = take k (xs @ [y])" if "k \<le> length xs"
      for k and xs :: "64 word list" and x y
      using that by simp
    from this [of "length hv" "[user (assign_fields hv snap), nice (assign_fields hv snap),
        system (assign_fields hv snap), idle (assign_fields hv snap),
        iowait (assign_fields hv snap), irq (assign_fields hv snap),
        softirq (assign_fields hv snap)]" 0 "steal (assign_fields hv snap)"] that
    show ?thesis by (simp add: cpu_values_def)
  qed
  with assign_fields_values(1) [OF len, of snap] s'
  show "take (length (header_values content)) (cpu_values s') = header_values content"
    by (auto simp: hv_def)
  show "steal s' = 0" if "length (header_values content) < 8"
    using that s' by (simp add: hv_def)
qed


theorem get_cpu_snapshot_result_witness:
  "get_cpu_snapshot (Bytes (''cpu  10 20 30 40 50 60 70'' @ [CHR 0x0A]))
     \<lparr>user = 9, nice = 9, system = 9, idle = 9, iowait = 9, irq = 9, softirq = 9, steal = 9\<rparr>
   = Some \<lparr>user = 10, nice = 20, system = 30, idle = 40, iowait = 50, irq = 60,
            softirq = 70, steal = 0\<rparr>
   \<and> header_values (''cpu  10 20 30 40 50 60 70'' @ [CHR 0x0A]) = [10, 20, 30, 40, 50, 60, 70]
   \<and> take 7 (cpu_values \<lparr>user = 10, nice = 20, system = 30, idle = 40, iowait = 50,
                irq = 60, softirq = 70, steal = 0\<rparr>) = [10, 20, 30, 40, 50, 60, 70]
   \<and> get_cpu_snapshot OpenFails
       \<lparr>user = 9, nice = 9, system = 9, idle = 9, iowait = 9, irq = 9, softirq = 9, steal = 9\<rparr>
     = None"
proof -
  let ?snap = "\<lparr>user = 9, nice = 9, system = 9, idle = 9, iowait = 9, irq = 9, softirq = 9,
                steal = (9::64 word)\<rparr>"
  let ?line = "''cpu  10 20 30 40 50 60 70'' @ [CHR 0x0A]"
  have hv: "header_values ?line = [10, 20, 30, 40, 50, 60, 70]"
    by (simp add: header_values_def c_str_def sscanf_cpu_def scan_eval scan_lus_numeral)
  have got: "get_cpu_snapshot (Bytes ?line) ?snap
     = Some \<lparr>user = 10, nice = 20, system = 30, idle = 40, iowait = 50, irq = 60,
            softirq = 70, steal = 0\<rparr>"
    by (simp add: get_cpu_snapshot_def fgets_def c_str_def sscanf_cpu_def scan_eval
        scan_lus_numeral assign_fields_def cpu_fields_def)
  from hv got get_cpu_snapshot_result [of "Bytes ?line" ?snap]
    get_cpu_snapshot_result [of OpenFails ?snap]
  show ?thesis by (simp add: cpu_values_def)
qed

text \<open>
  As stated, the claim fails on a header line from which three fields parse: the read
  succeeds, and the fields that did not parse keep what the struct held (\<open>9\<close> here) but
  for \<open>steal\<close>.
\<close>

theorem get_cpu_snapshot_three_fields_counterexample:
  "header_values (''cpu 1 2 3'' @ [CHR 0x0A]) = [1, 2, 3]
   \<and> get_cpu_snapshot (Bytes (''cpu 1 2 3'' @ [CHR 0x0A]))
       \<lparr>user = 9, nice = 9, system = 9, idle = 9, iowait = 9, irq = 9, softirq = 9, steal = 9\<rparr>
     = Some \<lparr>user = 1, nice = 2, system = 3, idle = 9, iowait = 9, irq = 9, softirq = 9,
              steal = 0\<rparr>"
  by (simp add: header_values_def get_cpu_snapshot_def fgets_def c_str_def sscanf_cpu_def
      scan_eval scan_lus_numeral assign_fields_def cpu_fields_def)


subsection \<open>get_memory_info\<close>

lemma meminfo_line_absent:
  "\<not> prefix ''MemTotal:'' l \<Longrightarrow> mem_total_kb (meminfo_line l st) = mem_total_kb st"
  "\<not> prefix ''MemFree:'' l \<Longrightarrow> mem_free_kb (meminfo_line l st) = mem_free_kb st"
  "\<not> prefix ''MemAvailable:'' l \<Longrightarrow>
     mem_available_kb (meminfo_line l st) = mem_available_kb st"
  by (simp_all add: meminfo_line_def split: option.splits)

lemma meminfo_loop_absent:
  "(\<not> list_ex (prefix ''MemTotal:'') (lines_read s) \<longrightarrow>
      mem_total_kb (meminfo_loop s st) = mem_total_kb st)
   \<and> (\<not> list_ex (prefix ''MemFree:'') (lines_read s) \<longrightarrow>
      mem_free_kb (meminfo_loop s st) = mem_free_kb st)
   \<and> (\<not> list_ex (prefix ''MemAvailable:'') (lines_read s) \<longrightarrow>
      mem_available_kb (meminfo_loop s st) = mem_available_kb st)"
proof (induction s st rule: meminfo_loop.induct)
  case (1 s st)
  show ?case
  proof (cases "fgets 128 s")
    case None
    then show ?thesis by (subst (1 2 3) meminfo_loop.simps) simp
  next
    case (Some a)
    obtain line rest where a: "a = (line, rest)" by (cases a)
    have lr: "lines_read s = c_str line # lines_read rest"
      using Some a by (subst lines_read.simps) simp
    have ml: "meminfo_loop s st = meminfo_loop rest (meminfo_line (c_str line) st)"
      using Some a by (subst meminfo_loop.simps) simp
    from 1 [OF Some a [symmetric]] show ?thesis
      unfolding lr ml by (auto simp: meminfo_line_absent)
  qed
qed

lemma take_line_first_line: "length (first_line s) \<le> n \<Longrightarrow> take_line n s = first_line s"
  by (induction s arbitrary: n) (auto split: if_splits)

lemma lines_read_file_lines:
  "list_all (\<lambda>l. length l \<le> 127) (file_lines s) \<Longrightarrow> lines_read s = map c_str (file_lines s)"
proof (induction s rule: file_lines.induct)
  case 1
  show ?case by (subst lines_read.simps) (simp add: fgets_def file_lines.simps)
next
  case (2 c cs)
  let ?l = "first_line (c # cs)"
  from "2.prems" have len: "length ?l \<le> 127"
    and rest: "list_all (\<lambda>l. length l \<le> 127) (file_lines (drop (length ?l) (c # cs)))"
    by (simp_all add: file_lines.simps)
  have tl: "take_line 127 (c # cs) = ?l" using len by (rule take_line_first_line)
  have "fgets 128 (c # cs) = Some (?l, drop (length ?l) (c # cs))"
    unfolding fgets_def using tl by (simp add: Let_def del: take_line.simps first_line.simps)
  then have "lines_read (c # cs) = c_str ?l # lines_read (drop (length ?l) (c # cs))"
    by (subst lines_read.simps) simp
  also have "lines_read (drop (length ?l) (c # cs))
               = map c_str (file_lines (drop (length ?l) (c # cs)))"
    using rest by (rule "2.IH")
  finally show ?case by (simp add: file_lines.simps del: first_line.simps)
qed

lemma prefix_c_str:
  assumes "CHR 0x00 \<notin> set key"
  shows "prefix key (c_str l) = prefix key l"
proof
  assume "prefix key (c_str l)"
  moreover have "prefix (c_str l) l"
    unfolding c_str_def by (metis prefixI takeWhile_dropWhile_id)
  ultimately show "prefix key l" by (rule prefix_order.trans)
next
  assume "prefix key l"
  then obtain r where l: "l = key @ r" by (auto elim: prefixE)
  have "c_str (key @ r) = key @ c_str r"
    unfolding c_str_def using assms by (intro takeWhile_append2) auto
  then show "prefix key (c_str l)" by (simp add: l)
qed

lemma list_ex_c_str:
  "CHR 0x00 \<notin> set key \<Longrightarrow> list_ex (prefix key) (map c_str ls) = list_ex (prefix key) ls"
  by (induction ls) (simp_all add: prefix_c_str)

text \<open>
  C10 (amended). \<open>get_memory_info\<close> leaves \<open>temp_c\<close>, \<open>cpu_usage_percent\<close> and
  \<open>uptime_sec\<close> as they were, and the whole state when the file cannot be opened or
  read. When no line of the file is longer than 127 bytes, its newline included, a memory
  field keeps its value if no line of the file begins with its key.
\<close>

theorem get_memory_info_frame:
  "temp_c (get_memory_info f st) = temp_c st
   \<and> cpu_usage_percent (get_memory_info f st) = cpu_usage_percent st
   \<and> uptime_sec (get_memory_info f st) = uptime_sec st
   \<and> (f = OpenFails \<or> f = ReadFails \<longrightarrow> get_memory_info f st = st)
   \<and> (\<forall>content.
        f = Bytes content \<and> list_all (\<lambda>l. length l \<le> 127) (file_lines content) \<longrightarrow>
          (\<not> list_ex (prefix ''MemTotal:'') (file_lines content) \<longrightarrow>
             mem_total_kb (get_memory_info f st) = mem_total_kb st)
        \<and> (\<not> list_ex (prefix ''MemFree:'') (file_lines content) \<longrightarrow>
             mem_free_kb (get_memory_info f st) = mem_free_kb st)
        \<and> (\<not> list_ex (prefix ''MemAvailable:'') (file_lines content) \<longrightarrow>
             mem_available_kb (get_memory_info f st) = mem_available_kb st))"
proof (intro conjI allI impI)
  show "temp_c (get_memory_info f st) = temp_c st"
    "cpu_usage_percent (get_memory_info f st) = cpu_usage_percent st"
    "uptime_sec (get_memory_info f st) = uptime_sec st"
    by (simp_all add: get_memory_info_other_fields)
  show "get_memory_info f st = st" if "f = OpenFails \<or> f = ReadFails"
    using that by (auto simp: get_memory_info_def)
next
  fix content
  assume a: "f = Bytes content \<and> list_all (\<lambda>l. length l \<le> 127) (file_lines content)"
  then have lr: "lines_read content = map c_str (file_lines content)"
    by (simp add: lines_read_file_lines)
  from a have g: "get_memory_info f st = meminfo_loop content st"
    by (simp add: get_memory_info_def)
  show "mem_total_kb (get_memory_info f st) = mem_total_kb st"
    if "\<not> list_ex (prefix ''MemTotal:'') (file_lines content)"
    using that meminfo_loop_absent [of content st] unfolding g lr
    by (simp add: list_ex_c_str)
  show "mem_free_kb (get_memory_info f st) = mem_free_kb st"
    if "\<not> list_ex (prefix ''MemFree:'') (file_lines content)"
    using that meminfo_loop_absent [of content st] unfolding g lr
    by (simp add: list_ex_c_str)
  show "mem_available_kb (get_memory_info f st) = mem_available_kb st"
    if "\<not> list_ex (prefix ''MemAvailable:'') (file_lines content)"
    using that meminfo_loop_absent [of content st] unfolding g lr
    by (simp add: list_ex_c_str)
qed

lemma fgets_example:
  "fgets 128 ''MemTotal:        1000000 kB\<newline>Buffers: 5 kB\<newline>MemAvailable:    400000 kB\<newline>''
   = Some (''MemTotal:        1000000 kB\<newline>'', ''Buffers: 5 kB\<newline>MemAvailable:    400000 kB\<newline>'')"
  "fgets 128 ''Buffers: 5 kB\<newline>MemAvailable:    400000 kB\<newline>''
   = Some (''Buffers: 5 kB\<newline>'', ''MemAvailable:    400000 kB\<newline>'')"
  "fgets 128 ''MemAvailable:    400000 kB\<newline>'' = Some (''MemAvailable:    400000 kB\<newline>'', [])"
  "fgets 128 [] = None"
  by (simp_all add: fgets_def)

lemma file_lines_example:
  "file_lines ''MemTotal:        1000000 kB\<newline>Buffers: 5 kB\<newline>MemAvailable:    400000 kB\<newline>''
     = [''MemTotal:        1000000 kB\<newline>'', ''Buffers: 5 kB\<newline>'',
        ''MemAvailable:    400000 kB\<newline>'']"
  by (simp add: file_lines.simps)

theorem get_memory_info_frame_witness:
  "list_all (\<lambda>l. length l \<le> 127)
     (file_lines ''MemTotal:        1000000 kB\<newline>Buffers: 5 kB\<newline>MemAvailable:    400000 kB\<newline>'')
   \<and> \<not> list_ex (prefix ''MemFree:'')
     (file_lines ''MemTotal:        1000000 kB\<newline>Buffers: 5 kB\<newline>MemAvailable:    400000 kB\<newline>'')
   \<and> mem_free_kb (get_memory_info
       (Bytes ''MemTotal:        1000000 kB\<newline>Buffers: 5 kB\<newline>MemAvailable:    400000 kB\<newline>'')
       \<lparr>temp_c = Finite 1, cpu_usage_percent = Finite 2, mem_total_kb = 3,
        mem_available_kb = 4, mem_free_kb = 5, uptime_sec = Finite 6\<rparr>) = 5
   \<and> get_memory_info
       (Bytes ''MemTotal:        1000000 kB\<newline>Buffers: 5 kB\<newline>MemAvailable:    400000 kB\<newline>'')
       \<lparr>temp_c = Finite 1, cpu_usage_percent = Finite 2, mem_total_kb = 3,
        mem_available_kb = 4, mem_free_kb = 5, uptime_sec = Finite 6\<rparr>
     = \<lparr>temp_c = Finite 1, cpu_usage_percent = Finite 2, mem_total_kb = 1000000,
        mem_available_kb = 400000, mem_free_kb = 5, uptime_sec = Finite 6\<rparr>
   \<and> get_memory_info OpenFails
       \<lparr>temp_c = Finite 1, cpu_usage_percent = Finite 2, mem_total_kb = 3,
        mem_available_kb = 4, mem_free_kb = 5, uptime_sec = Finite 6\<rparr>
     = \<lparr>temp_c = Finite 1, cpu_usage_percent = Finite 2, mem_total_kb = 3,
        mem_available_kb = 4, mem_free_kb = 5, uptime_sec = Finite 6\<rparr>"
proof -
  let ?c = "''MemTotal:        1000000 kB\<newline>Buffers: 5 kB\<newline>MemAvailable:    400000 kB\<newline>''"
  let ?st = "\<lparr>temp_c = Finite 1, cpu_usage_percent = Finite 2, mem_total_kb = 3,
        mem_available_kb = 4, mem_free_kb = 5, uptime_sec = Finite 6\<rparr>"
  have short: "list_all (\<lambda>l. length l \<le> 127) (file_lines ?c)"
    unfolding file_lines_example by simp
  have absent: "\<not> list_ex (prefix ''MemFree:'') (file_lines ?c)"
    unfolding file_lines_example by simp
  have kept: "mem_free_kb (get_memory_info (Bytes ?c) ?st) = mem_free_kb ?st"
    using get_memory_info_frame [of "Bytes ?c" ?st] short absent by blast
  have failed: "get_memory_info OpenFails ?st = ?st"
    using get_memory_info_frame [of OpenFails ?st] by blast
  have result: "get_memory_info (Bytes ?c) ?st
     = \<lparr>temp_c = Finite 1, cpu_usage_percent = Finite 2, mem_total_kb = 1000000,
        mem_available_kb = 400000, mem_free_kb = 5, uptime_sec = Finite 6\<rparr>"
    by (simp add: get_memory_info_def meminfo_loop.simps fgets_example c_str_def
        meminfo_line_def sscanf_key_lu_def scan_eval)
  from short absent kept failed result show ?thesis by simp
qed

lemma take_line_0: "take_line 0 s = []"
  by (cases s) simp_all

lemma take_line_replicate:
  "c \<noteq> CHR 0x0A \<Longrightarrow> take_line n (replicate n c @ rest) = replicate n c"
  by (induction n) (simp_all add: take_line_0)

lemma first_line_replicate:
  "c \<noteq> CHR 0x0A \<Longrightarrow> first_line (replicate n c @ rest) = replicate n c @ first_line rest"
  by (induction n) auto

text \<open>
  C10 as stated fails on a longer line: \<open>fgets\<close> reads it in pieces of 127 bytes, and a
  piece that begins with a key is taken for a key line. Here the only line begins with
  \<open>x\<close>, and \<open>mem_free_kb\<close> is set all the same.
\<close>

theorem get_memory_info_long_line_counterexample:
  "file_lines (replicate 127 CHR ''x'' @ ''MemFree: 77 kB\<newline>'')
     = [replicate 127 CHR ''x'' @ ''MemFree: 77 kB\<newline>'']
   \<and> \<not> list_ex (prefix ''MemFree:'')
         (file_lines (replicate 127 CHR ''x'' @ ''MemFree: 77 kB\<newline>''))
   \<and> mem_free_kb (get_memory_info (Bytes (replicate 127 CHR ''x'' @ ''MemFree: 77 kB\<newline>''))
       \<lparr>temp_c = Finite 1, cpu_usage_percent = Finite 2, mem_total_kb = 3,
        mem_available_kb = 4, mem_free_kb = 5, uptime_sec = Finite 6\<rparr>) = 77"
proof -
  let ?x = "replicate 127 CHR ''x''"
  let ?st = "\<lparr>temp_c = Finite 1, cpu_usage_percent = Finite 2, mem_total_kb = 3,
        mem_available_kb = 4, mem_free_kb = 5, uptime_sec = Finite 6\<rparr>"
  have x: "?x = CHR ''x'' # replicate 126 CHR ''x''" by (simp add: replicate_num)
  have fl: "first_line (?x @ ''MemFree: 77 kB\<newline>'') = ?x @ ''MemFree: 77 kB\<newline>''"
    by (simp add: first_line_replicate)
  have lines: "file_lines (?x @ ''MemFree: 77 kB\<newline>'') = [?x @ ''MemFree: 77 kB\<newline>'']"
    unfolding x append_Cons by (subst file_lines.simps)
      (simp add: fl [unfolded x append_Cons] file_lines.simps del: first_line.simps)
  have absent: "\<not> list_ex (prefix ''MemFree:'') (file_lines (?x @ ''MemFree: 77 kB\<newline>''))"
    unfolding lines by (simp add: x)
  have f1: "fgets 128 (?x @ ''MemFree: 77 kB\<newline>'') = Some (?x, ''MemFree: 77 kB\<newline>'')"
    using take_line_replicate [of "CHR ''x''" 127 "''MemFree: 77 kB\<newline>''"]
    by (simp add: fgets_def)
  have f2: "fgets 128 ''MemFree: 77 kB\<newline>'' = Some (''MemFree: 77 kB\<newline>'', [])"
    "fgets 128 [] = None"
    by (simp_all add: fgets_def)
  have cx: "c_str ?x = ?x" by (simp add: c_str_def)
  have m1: "meminfo_line (c_str ?x) ?st = ?st"
    unfolding cx by (simp add: meminfo_line_def x)
  have "meminfo_loop (?x @ ''MemFree: 77 kB\<newline>'') ?st
          = meminfo_loop ''MemFree: 77 kB\<newline>'' ?st"
    by (subst meminfo_loop.simps) (simp add: f1 m1)
  also have "mem_free_kb (meminfo_loop ''MemFree: 77 kB\<newline>'' ?st) = 77"
    by (simp add: meminfo_loop.simps f2 c_str_def meminfo_line_def sscanf_key_lu_def scan_eval)
  finally (ssubst) show ?thesis
    using lines absent by (simp add: get_memory_info_def)
qed


subsection \<open>get_cpu_temperature\<close>

lemma atoi_number:
  assumes "n < 2 ^ 31" and "rest = [] \<or> \<not> isdigit (hd rest)"
  shows "atoi ((if neg then ''-'' else []) @ dec n @ rest)
           = word_of_int (if neg then - int n else int n)"
proof -
  obtain d ds where d: "dec n = d # ds" using dec_props [of n] by (cases "dec n") auto
  with dec_props [of n] have dd: "isdigit d" and all: "list_all isdigit (d # ds)"
    and val: "nat_of_digits (d # ds) = n" by auto
  note tw = takeWhile_digits(1) [OF all assms(2)]
  have range: "strtol_value neg n = (if neg then - int n else int n)"
    using assms(1) by (simp add: strtol_value_def)
  show ?thesis
  proof (cases neg)
    case True
    then show ?thesis
      using tw val range by (simp add: atoi_def d isspace_def Let_def)
  next
    case False
    then show ?thesis
      using tw val range isdigit_facts(1-3) [OF dd] by (simp add: atoi_def d Let_def)
  qed
qed

lemma thermal_buffer:
  assumes "n < 2 ^ 31" and "rest = [] \<or> \<not> isdigit (hd rest)"
  shows "\<exists>rest'. c_str (take 15 ((if neg then ''-'' else []) @ dec n @ rest))
                   = (if neg then ''-'' else []) @ dec n @ rest'
                 \<and> (rest' = [] \<or> \<not> isdigit (hd rest'))"
proof -
  have "n < 10 ^ 10" using assms(1) by simp
  then have len: "length (dec n) \<le> 10" by (rule length_dec) simp
  define k where "k = 15 - length (if neg then ''-'' else []) - length (dec n)"
  have k: "0 < k" using len by (simp add: k_def)
  have tk: "take 15 ((if neg then ''-'' else []) @ dec n @ rest)
              = (if neg then ''-'' else []) @ dec n @ take k rest"
    using len by (simp add: k_def)
  have nz: "\<forall>c \<in> set ((if neg then ''-'' else []) @ dec n). c \<noteq> CHR 0x00"
    using dec_props [of n] isdigit_facts(4) by (auto simp: list_all_iff)
  have "c_str (((if neg then ''-'' else []) @ dec n) @ take k rest)
          = ((if neg then ''-'' else []) @ dec n) @ c_str (take k rest)"
    unfolding c_str_def using nz by (intro takeWhile_append2) blast
  then have cs: "c_str (take 15 ((if neg then ''-'' else []) @ dec n @ rest))
          = (if neg then ''-'' else []) @ dec n @ c_str (take k rest)"
    unfolding tk by simp
  have "c_str (take k rest) = [] \<or> \<not> isdigit (hd (c_str (take k rest)))"
  proof (cases rest)
    case Nil
    then show ?thesis by (simp add: c_str_def)
  next
    case (Cons x xs)
    with k obtain j where "k = Suc j" by (cases k) auto
    with Cons assms(2) show ?thesis by (simp add: c_str_def)
  qed
  with cs show ?thesis by blast
qed

lemma sint_small:
  assumes "- (2 ^ 31) \<le> z" and "z < 2 ^ 31"
  shows "sint (word_of_int z :: 32 word) = z"
  using assms by (simp add: int_word_sint)

lemma atoi_skips_space: "list_all isspace ws \<Longrightarrow> atoi (ws @ s) = atoi s"
proof -
  assume "list_all isspace ws"
  then have "dropWhile isspace (ws @ s) = dropWhile isspace s"
    by (intro dropWhile_append2) (simp add: list_all_iff)
  then show ?thesis by (simp add: atoi_def)
qed

lemma atoi_no_digit:
  assumes "s = [] \<or> (\<not> isspace (hd s) \<and> \<not> isdigit (hd s) \<and> hd s \<noteq> CHR ''-'' \<and> hd s \<noteq> CHR ''+'')"
  shows "atoi s = 0"
  using assms by (cases s) (auto simp: atoi_def nat_of_digits_def strtol_value_def)

lemma atoi_sign_no_digit:
  assumes "c = CHR ''-'' \<or> c = CHR ''+''" and "s = [] \<or> \<not> isdigit (hd s)"
  shows "atoi (c # s) = 0"
proof -
  have "\<not> isspace c" using assms(1) by (auto simp: isspace_def)
  moreover have "takeWhile isdigit s = []" using assms(2) by (cases s) auto
  ultimately show ?thesis
    using assms(1) by (auto simp: atoi_def nat_of_digits_def strtol_value_def)
qed

lemma atoi_no_number:
  assumes p: "prefix s (ws @ sg @ rest)" and ws: "list_all isspace ws"
    and sg: "sg = [] \<or> sg = ''-'' \<or> sg = ''+''"
    and r: "rest = [] \<or> \<not> isdigit (hd rest)"
    and m: "sg = [] \<longrightarrow>
              rest = [] \<or> (\<not> isspace (hd rest) \<and> hd rest \<noteq> CHR ''-'' \<and> hd rest \<noteq> CHR ''+'')"
  shows "atoi s = 0"
proof -
  from p consider (inside) "prefix s ws" | (beyond) us where "s = ws @ us" "prefix us (sg @ rest)"
    by (auto simp: prefix_append)
  then show ?thesis
  proof cases
    case inside
    then obtain t where "ws = s @ t" by (auto elim: prefixE)
    with ws have "list_all isspace s" by simp
    from atoi_skips_space [OF this, of "[]"] show ?thesis
      by (simp add: atoi_no_digit)
  next
    case beyond
    have "atoi us = 0"
    proof (cases us)
      case Nil
      then show ?thesis by (simp add: atoi_no_digit)
    next
      case (Cons u us')
      show ?thesis
      proof (cases "sg = []")
        case True
        with beyond(2) Cons have "rest \<noteq> []" "hd rest = u" by (auto simp: prefix_def)
        with True r m Cons show ?thesis by (intro atoi_no_digit) simp
      next
        case False
        with sg beyond(2) Cons have u: "u = CHR ''-'' \<or> u = CHR ''+''" and "prefix us' rest"
          by (auto simp: prefix_Cons)
        then have "us' = [] \<or> \<not> isdigit (hd us')"
          using r by (cases us') (auto simp: prefix_def)
        with u show ?thesis unfolding Cons by (rule atoi_sign_no_digit)
      qed
    qed
    with beyond(1) ws show ?thesis by (simp add: atoi_skips_space)
  qed
qed

lemma c_str_take_prefix: "prefix (c_str (take n s)) s"
proof -
  have "prefix (c_str (take n s)) (take n s)"
    unfolding c_str_def by (metis prefixI takeWhile_dropWhile_id)
  then show ?thesis using take_is_prefix by (rule prefix_order.trans)
qed

text \<open>
  C9 (amended). \<open>get_cpu_temperature\<close> returns the sentinel \<open>-1.0\<close> when the file
  cannot be opened or no byte can be read from it (a read failure or an empty file). A
  reading written as a decimal integer of millidegrees (an optional minus sign, the digits
  without leading zeros, then a byte that is not a digit or the end of the file) whose
  magnitude is below \<open>2 ^ 31\<close> gives that number divided by 1000. Content in which no
  digit follows the leading white space and the optional sign is not detected: it gives
  \<open>0.0\<close>.
\<close>

theorem get_cpu_temperature_result:
  "(thermal = OpenFails \<or> thermal = ReadFails \<or> thermal = Bytes [] \<longrightarrow>
      get_cpu_temperature thermal = Finite (- 1))
   \<and> (\<forall>neg n rest.
        thermal = Bytes ((if neg then ''-'' else []) @ dec n @ rest) \<and> n < 2 ^ 31
        \<and> (rest = [] \<or> \<not> isdigit (hd rest)) \<longrightarrow>
        get_cpu_temperature thermal
          = round_double ((if neg then - real n else real n) / 1000))
   \<and> (\<forall>ws sg rest.
        thermal = Bytes (ws @ sg @ rest) \<and> ws @ sg @ rest \<noteq> []
        \<and> list_all isspace ws \<and> (sg = [] \<or> sg = ''-'' \<or> sg = ''+'')
        \<and> (rest = [] \<or> \<not> isdigit (hd rest))
        \<and> (sg = [] \<longrightarrow>
             rest = [] \<or> (\<not> isspace (hd rest) \<and> hd rest \<noteq> CHR ''-'' \<and> hd rest \<noteq> CHR ''+''))
        \<longrightarrow> get_cpu_temperature thermal = Finite 0)"
proof (intro conjI allI impI)
  assume "thermal = OpenFails \<or> thermal = ReadFails \<or> thermal = Bytes []"
  then show "get_cpu_temperature thermal = Finite (- 1)"
    by (auto simp: get_cpu_temperature_def)
next
  fix neg n rest
  assume a: "thermal = Bytes ((if neg then ''-'' else []) @ dec n @ rest) \<and> n < 2 ^ 31
             \<and> (rest = [] \<or> \<not> isdigit (hd rest))"
  define z where "z = (if neg then - int n else int n)"
  from a have n: "n < 2 ^ 31" and r: "rest = [] \<or> \<not> isdigit (hd rest)" by blast+
  from thermal_buffer [OF n r, of neg] obtain rest' where
    buf: "c_str (take 15 ((if neg then ''-'' else []) @ dec n @ rest))
            = (if neg then ''-'' else []) @ dec n @ rest'"
    and r': "rest' = [] \<or> \<not> isdigit (hd rest')" by blast
  define content where "content = (if neg then ''-'' else []) @ dec n @ rest"
  have "content \<noteq> []" using dec_props [of n] by (simp add: content_def)
  then have ne: "take 15 content \<noteq> []" by simp
  have th: "thermal = Bytes content" using a by (simp add: content_def)
  have at: "atoi (c_str (take 15 content)) = word_of_int z"
    using atoi_number [OF n r', of neg] buf by (simp only: content_def z_def)
  have zr: "- (2 ^ 31) \<le> z" "z < 2 ^ 31" "\<bar>z\<bar> \<le> 2 ^ 53" using n by (auto simp: z_def)
  have "get_cpu_temperature thermal
          = double_div (double_of_int (word_of_int z)) (Finite 1000)"
    using ne by (simp add: th get_cpu_temperature_def Let_def at)
  also have "double_of_int (word_of_int z) = Finite (of_int z)"
    using sint_small [OF zr(1,2)] round_double_of_int [OF zr(3)] by (simp add: double_of_int_def)
  also have "double_div (Finite (of_int z)) (Finite 1000) = round_double (of_int z / 1000)"
    by simp
  also have "real_of_int z = (if neg then - real n else real n)" by (simp add: z_def)
  finally show "get_cpu_temperature thermal
                  = round_double ((if neg then - real n else real n) / 1000)" .
next
  fix ws sg rest
  assume a: "thermal = Bytes (ws @ sg @ rest) \<and> ws @ sg @ rest \<noteq> []
        \<and> list_all isspace ws \<and> (sg = [] \<or> sg = ''-'' \<or> sg = ''+'')
        \<and> (rest = [] \<or> \<not> isdigit (hd rest))
        \<and> (sg = [] \<longrightarrow>
             rest = [] \<or> (\<not> isspace (hd rest) \<and> hd rest \<noteq> CHR ''-'' \<and> hd rest \<noteq> CHR ''+''))"
  define content where "content = ws @ sg @ rest"
  have "atoi (c_str (take 15 content)) = 0"
    using c_str_take_prefix [of 15 content] a unfolding content_def
    by (intro atoi_no_number [of _ ws sg rest]) blast+
  moreover from a have "thermal = Bytes content" "take 15 content \<noteq> []"
    by (simp_all add: content_def)
  ultimately show "get_cpu_temperature thermal = Finite 0"
    by (simp add: get_cpu_temperature_def Let_def double_of_int_def round_double_zero)
qed

theorem get_cpu_temperature_result_witness:
  "get_cpu_temperature (Bytes ''42000\<newline>'') = Finite 42
   \<and> get_cpu_temperature OpenFails = Finite (- 1)
   \<and> get_cpu_temperature (Bytes '' -?'') = Finite 0"
proof -
  have d: "dec 42000 = ''42000''" by (simp add: dec.simps digit_char_def)
  have "get_cpu_temperature (Bytes ((if False then ''-'' else []) @ dec 42000 @ ''\<newline>''))
          = round_double ((if False then - real 42000 else real 42000) / 1000)"
    by (rule get_cpu_temperature_result
      [of "Bytes ((if False then ''-'' else []) @ dec 42000 @ ''\<newline>'')",
       THEN conjunct2, THEN conjunct1, rule_format, of False 42000 "''\<newline>''"])
      (simp add: isdigit_def)
  moreover have "round_double 42 = Finite 42" using round_double_of_int [of 42] by simp
  ultimately have 1: "get_cpu_temperature (Bytes ''42000\<newline>'') = Finite 42"
    by (simp add: d)
  have 2: "get_cpu_temperature OpenFails = Finite (- 1)"
    using get_cpu_temperature_result [of OpenFails] by simp
  have "get_cpu_temperature (Bytes ('' '' @ ''-'' @ ''?'')) = Finite 0"
    by (rule get_cpu_temperature_result
      [of "Bytes ('' '' @ ''-'' @ ''?'')", THEN conjunct2, THEN conjunct2, rule_format,
       of "'' ''" "''-''" "''?''"])
      (simp add: isspace_def isdigit_def)
  then have 3: "get_cpu_temperature (Bytes '' -?'') = Finite 0" by simp
  from 1 2 3 show ?thesis by simp
qed

text \<open>
  C9 as stated fails on content that is not a number, where the result is \<open>0.0\<close> and not
  the sentinel, and on a reading that does not fit an \<open>int\<close>, of which \<open>atoi\<close> keeps the
  low 32 bits.
\<close>

theorem get_cpu_temperature_counterexample:
  "get_cpu_temperature (Bytes ''abc'') = Finite 0
   \<and> get_cpu_temperature (Bytes ''4294967296\<newline>'') = Finite 0"
proof -
  have "atoi ''4294967296\<newline>'' = 0"
    by (simp add: atoi_def isspace_def isdigit_def nat_of_digits_def digit_val_def
        strtol_value_def)
  then have "get_cpu_temperature (Bytes ''4294967296\<newline>'') = Finite 0"
    by (simp add: get_cpu_temperature_def c_str_def double_of_int_def round_double_zero)
  moreover have "get_cpu_temperature (Bytes ''abc'') = Finite 0"
    by (simp add: get_cpu_temperature_def atoi_def c_str_def isspace_def isdigit_def
        nat_of_digits_def strtol_value_def double_of_int_def round_double_zero)
  ultimately show ?thesis by simp
qed


section \<open>Properties of the dashboard server\<close>

subsection \<open>strstr\<close>

lemma strstr_None_iff: "(strstr h n = None) = (\<not> sublist n h)"
  by (induction h) (auto simp: sublist_Cons_right)

lemma strstr_Some:
  assumes "strstr h n = Some t"
  shows "suffix t h" and "prefix n t"
  using assms by (induction h; auto simp: suffix_Cons split: if_splits)+

lemma prefix_shift:
  assumes "prefix n (xs @ n @ rest)" and "xs \<noteq> []"
  shows "prefix n (xs @ butlast n)"
proof (cases "n = []")
  case True
  then show ?thesis by simp
next
  case False
  then have n: "n = butlast n @ [last n]" by simp
  have len: "length n \<le> length (xs @ butlast n)" using assms(2) by (cases xs) auto
  have "xs @ n @ rest = (xs @ butlast n) @ ([last n] @ rest)"
    using n by (metis append.assoc)
  with assms(1) have "prefix n ((xs @ butlast n) @ ([last n] @ rest))" by simp
  moreover have "prefix (xs @ butlast n) ((xs @ butlast n) @ ([last n] @ rest))" by simp
  ultimately show ?thesis using len by (rule prefix_length_prefix)
qed

lemma strstr_first:
  assumes "\<not> sublist n (pre @ butlast n)" and "n \<noteq> []"
  shows "strstr (pre @ n @ rest) n = Some (n @ rest)"
  using assms(1)
proof (induction pre)
  case Nil
  with assms(2) show ?case by (cases n) auto
next
  case (Cons c pre)
  have "\<not> prefix n ((c # pre) @ n @ rest)"
  proof
    assume "prefix n ((c # pre) @ n @ rest)"
    then have "prefix n ((c # pre) @ butlast n)" by (rule prefix_shift) simp
    then have "sublist n ((c # pre) @ butlast n)" by (rule prefix_imp_sublist)
    with Cons.prems show False by simp
  qed
  moreover have "\<not> sublist n (pre @ butlast n)"
    using Cons.prems by (auto simp: sublist_Cons_right)
  ultimately show ?case using Cons.IH by simp
qed

lemma strchr_Some:
  assumes "strchr s c = Some t"
  shows "\<exists>line. s = line @ t \<and> c \<notin> set line" and "t \<noteq> []" and "hd t = c"
  using assms
proof (induction s)
  case Nil
  {
    case 1 then show ?case by simp
  next
    case 2 then show ?case by simp
  next
    case 3 then show ?case by simp
  }
next
  case (Cons x xs)
  {
    case 1
    show ?case
    proof (cases "x = c")
      case True
      with 1 have "x # xs = [] @ t" by simp
      then show ?thesis by (metis empty_iff list.set(1))
    next
      case False
      with 1 Cons(1) obtain line where "xs = line @ t" "c \<notin> set line" by auto
      with False have "x # xs = (x # line) @ t \<and> c \<notin> set (x # line)" by simp
      then show ?thesis by blast
    qed
  next
    case 2
    with Cons(2) show ?case by (auto split: if_splits)
  next
    case 3
    with Cons(3) show ?case by (auto split: if_splits)
  }
qed


subsection \<open>The choice of the line\<close>

lemma json_start_not_newline: "\<not> prefix json_start (CHR 0x0A # rest)"
  by (simp add: json_start_def)

lemma json_start_nonempty: "json_start \<noteq> []"
  by (simp add: json_start_def)

lemma scan_lines_done:
  "strchr cur (CHR 0x0A) = None \<Longrightarrow> scan_lines cur last_line = (cur, last_line)"
  by (subst scan_lines.simps) simp

lemma scan_lines_step:
  "strchr cur (CHR 0x0A) = Some next_line \<Longrightarrow>
     scan_lines cur last_line
       = scan_lines (tl next_line)
           (if next_line \<noteq> cur \<and> strstr cur json_start \<noteq> None then Some cur
            else last_line)"
  by (subst scan_lines.simps) simp

lemma scan_lines_None_iff:
  assumes "scan_lines cur last_line = (cur', last')"
  shows "((if cur' \<noteq> [] \<and> strstr cur' json_start \<noteq> None then Some cur' else last') = None)
           = (last_line = None \<and> \<not> sublist json_start cur)"
  using assms
proof (induction cur last_line rule: scan_lines.induct)
  case (1 cur last_line)
  show ?case
  proof (cases "strchr cur (CHR 0x0A)")
    case None
    with 1(2) have "cur' = cur" "last' = last_line" by (simp_all add: scan_lines_done)
    then show ?thesis
      using json_start_nonempty by (auto simp: strstr_None_iff)
  next
    case (Some next_line)
    from strchr_Some [OF Some] obtain line rest where
      cur: "cur = line @ CHR 0x0A # rest" and nl: "next_line = CHR 0x0A # rest"
      by (cases next_line) auto
    define kept where
      "kept = (if next_line \<noteq> cur \<and> strstr cur json_start \<noteq> None then Some cur else last_line)"
    from 1(2) have "scan_lines (tl next_line) kept = (cur', last')"
      unfolding scan_lines_step [OF Some] kept_def .
    from 1(1) [OF Some this [unfolded kept_def]]
    have ih: "((if cur' \<noteq> [] \<and> strstr cur' json_start \<noteq> None then Some cur' else last') = None)
                = (kept = None \<and> \<not> sublist json_start rest)"
      by (simp add: kept_def nl)
    have ne: "next_line \<noteq> cur \<longleftrightarrow> line \<noteq> []" by (simp add: cur nl)
    have up: "sublist json_start cur" if "sublist json_start rest"
    proof -
      from that obtain ps ss where "rest = ps @ json_start @ ss" by (auto simp: sublist_def)
      then have "cur = (line @ CHR 0x0A # ps) @ json_start @ ss" by (simp add: cur)
      then show ?thesis unfolding sublist_def by blast
    qed
    have down: "sublist json_start rest" if "sublist json_start cur" "line = []"
      using that json_start_not_newline [of rest] by (simp add: cur sublist_Cons_right)
    have "(kept = None \<and> \<not> sublist json_start rest)
            = (last_line = None \<and> \<not> sublist json_start cur)"
      unfolding kept_def ne strstr_None_iff using up down by auto
    with ih show ?thesis by simp
  qed
qed

lemma find_last_line_None_iff:
  "(find_last_line buffer = None) = (\<not> sublist json_start buffer)"
proof -
  obtain cur' last' where r: "scan_lines buffer None = (cur', last')"
    by (cases "scan_lines buffer None")
  from scan_lines_None_iff [OF r] show ?thesis
    by (simp add: find_last_line_def r)
qed

lemma trailing_window_nonempty: "content \<noteq> [] \<Longrightarrow> trailing_window content \<noteq> []"
  by (auto simp: trailing_window_def Let_def)

lemma get_latest_data_bytes:
  assumes "content \<noteq> []"
  shows "get_latest_data (Bytes content)
           = map_option parse_line (find_last_line (c_str (trailing_window content)))"
  using assms trailing_window_nonempty [OF assms]
  by (simp add: get_latest_data_def Let_def split: option.splits)

text \<open>
  \<open>get_latest_data\<close> reports no data exactly when the log cannot be opened or read, is
  empty, or the start of a record (\<open>json_start\<close>) occurs nowhere in the trailing window
  read as a C string.
\<close>

lemma get_latest_data_no_data:
  "(get_latest_data f = None)
     = (case f of
          OpenFails \<Rightarrow> True
        | ReadFails \<Rightarrow> True
        | Bytes content \<Rightarrow>
            content = [] \<or> \<not> sublist json_start (c_str (trailing_window content)))"
proof (cases f)
  case (Bytes content)
  show ?thesis
  proof (cases "content = []")
    case True
    with Bytes show ?thesis by (simp add: get_latest_data_def)
  next
    case False
    with Bytes show ?thesis
      by (simp add: get_latest_data_bytes find_last_line_None_iff)
  qed
qed (simp_all add: get_latest_data_def)


subsection \<open>Field extraction\<close>

lemmas strtod_eval =
  strtod_def parse_double_def scan_magnitude_def starts_nocase_def tolower_def
  scan_decimal_def scan_exponent_def isdigit_def isspace_def nat_of_digits_def digit_val_def
  Let_def

lemma round_double_5: "round_double 5 = Finite 5"
  using round_double_of_int [of 5] by simp

lemma strtod_example: "strtod ''5.00}'' = Finite 5"
  by (simp add: strtod_eval power_int_minus round_double_5)

text \<open>
  For a key of at most 60 characters, \<open>extract_json_value\<close> searches the text
  \<open>"key":\<close>: when it occurs nowhere the result is \<open>0.0\<close>, and otherwise the result
  is what \<open>strtod\<close> reads immediately after its first occurrence (\<open>0.0\<close> when no
  number is there).
\<close>

lemma extract_json_value_cases:
  assumes "length key \<le> 60"
  shows "(\<not> sublist (''\"'' @ key @ ''\":'') json \<longrightarrow> extract_json_value json key = Finite 0)
    \<and> (\<forall>pre rest.
          json = pre @ (''\"'' @ key @ ''\":'') @ rest
          \<and> \<not> sublist (''\"'' @ key @ ''\":'') (pre @ ''\"'' @ key @ ''\"'') \<longrightarrow>
          extract_json_value json key = strtod rest)"
proof (intro conjI allI impI)
  define k where "k = ''\"'' @ key @ ''\":''"
  have sk: "take 63 k = k" and k0: "k \<noteq> []" and bl: "butlast k = ''\"'' @ key @ ''\"''"
    using assms by (simp_all add: k_def butlast_append)
  have ex: "extract_json_value json key
              = (case strstr json k of Some pos \<Rightarrow> strtod (drop (length k) pos)
                 | None \<Rightarrow> Finite 0)"
    unfolding extract_json_value_def Let_def k_def [symmetric] sk ..
  show "extract_json_value json key = Finite 0" if "\<not> sublist (''\"'' @ key @ ''\":'') json"
    using that strstr_None_iff [of json k] unfolding ex by (simp add: k_def)
  show "extract_json_value json key = strtod rest"
    if a: "json = pre @ (''\"'' @ key @ ''\":'') @ rest
           \<and> \<not> sublist (''\"'' @ key @ ''\":'') (pre @ ''\"'' @ key @ ''\"'')"
    for pre rest
  proof -
    from a have "\<not> sublist k (pre @ butlast k)"
      unfolding bl by (simp add: k_def)
    then have "strstr (pre @ k @ rest) k = Some (k @ rest)"
      using k0 by (rule strstr_first)
    moreover from a have "json = pre @ k @ rest" by (simp add: k_def)
    ultimately show ?thesis unfolding ex by simp
  qed
qed

lemma round_double_7: "round_double 7 = Finite 7"
  using round_double_of_int [of 7] by simp

text \<open>
  C8. The chosen line is not cut at its newline: \<open>extract_json_value\<close> is given the text
  from the start of the line to the end of the window. Here the first line is chosen, the
  key \<open>temp_c\<close> occurs nowhere in it, and the field is read from the line after it
  instead of being \<open>0.0\<close>.
\<close>

theorem get_latest_data_reads_past_line:
  "find_last_line (c_str (trailing_window
       ''{\"timestamp\":1.0,\"uptime_sec\":5.00}\<newline>note \"temp_c\":7\<newline>''))
     = Some ''{\"timestamp\":1.0,\"uptime_sec\":5.00}\<newline>note \"temp_c\":7\<newline>''
   \<and> first_line ''{\"timestamp\":1.0,\"uptime_sec\":5.00}\<newline>note \"temp_c\":7\<newline>''
     = ''{\"timestamp\":1.0,\"uptime_sec\":5.00}\<newline>''
   \<and> strstr ''{\"timestamp\":1.0,\"uptime_sec\":5.00}\<newline>'' ''\"temp_c\":'' = None
   \<and> get_latest_data
       (Bytes ''{\"timestamp\":1.0,\"uptime_sec\":5.00}\<newline>note \"temp_c\":7\<newline>'')
     = Some \<lparr>uptime = Finite 5, cpu_temp = Finite 7, cpu_usage = Finite 0, mem_total = 0,
             mem_free = 0, mem_used_pct = Finite 0\<rparr>"
proof -
  let ?w = "''{\"timestamp\":1.0,\"uptime_sec\":5.00}\<newline>note \"temp_c\":7\<newline>''"
  let ?l = "''note \"temp_c\":7\<newline>''"
  have w: "c_str (trailing_window ?w) = ?w"
    by (simp add: trailing_window_def c_str_def)
  have nl1: "strchr ?w (CHR 0x0A) = Some (CHR 0x0A # ?l)" by simp
  have nl2: "strchr ?l (CHR 0x0A) = Some ''\<newline>''" by simp
  have "scan_lines ?w None = scan_lines ?l (Some ?w)"
    unfolding scan_lines_step [OF nl1] by (simp add: json_start_def)
  also have "\<dots> = scan_lines [] (Some ?w)"
    unfolding scan_lines_step [OF nl2] by (simp add: json_start_def)
  also have "\<dots> = ([], Some ?w)" by (rule scan_lines_done) simp
  finally have chosen: "find_last_line ?w = Some ?w" by (simp add: find_last_line_def)
  then have "get_latest_data (Bytes ?w) = Some (parse_line ?w)"
    unfolding get_latest_data_bytes [of ?w, simplified] w by simp
  also have "parse_line ?w = \<lparr>uptime = Finite 5, cpu_temp = Finite 7, cpu_usage = Finite 0,
                mem_total = 0, mem_free = 0, mem_used_pct = Finite 0\<rparr>"
    by (simp add: parse_line_def extract_json_value_def strtod_eval power_int_minus
        round_double_5 round_double_7 long_of_double_def)
  finally show ?thesis using chosen w by simp
qed

text \<open>
  C3. The test of a line is \<open>strstr(curr, "{\"timestamp\"")\<close>, which looks for the start
  of a record anywhere from the start of the line on, not only at its beginning: a line
  that holds the start of a record after other text is chosen and parsed.
\<close>

theorem get_latest_data_prefix_not_required:
  "get_latest_data (Bytes ''x{\"timestamp\":1.0,\"uptime_sec\":5.00}\<newline>'')
     = Some \<lparr>uptime = Finite 5, cpu_temp = Finite 0, cpu_usage = Finite 0, mem_total = 0,
              mem_free = 0, mem_used_pct = Finite 0\<rparr>"
proof -
  let ?w = "''x{\"timestamp\":1.0,\"uptime_sec\":5.00}\<newline>''"
  have w: "c_str (trailing_window ?w) = ?w"
    by (simp add: trailing_window_def c_str_def)
  have nl: "strchr ?w (CHR 0x0A) = Some ''\<newline>''" by simp
  have "scan_lines ?w None = scan_lines [] (Some ?w)"
    unfolding scan_lines_step [OF nl] by (simp add: json_start_def)
  also have "\<dots> = ([], Some ?w)" by (rule scan_lines_done) simp
  finally have "find_last_line ?w = Some ?w" by (simp add: find_last_line_def)
  then have "get_latest_data (Bytes ?w) = Some (parse_line ?w)"
    unfolding get_latest_data_bytes [of ?w, simplified] w by simp
  also have "parse_line ?w = \<lparr>uptime = Finite 5, cpu_temp = Finite 0, cpu_usage = Finite 0,
                mem_total = 0, mem_free = 0, mem_used_pct = Finite 0\<rparr>"
    by (simp add: parse_line_def extract_json_value_def strtod_eval power_int_minus
        round_double_5 long_of_double_def)
  finally show ?thesis .
qed

text \<open>
  C7. The test of a line finds the start of a record anywhere from the start of the line
  on. In this window, which is not empty, no line begins with the start of a record, and
  \<open>get_latest_data\<close> reports a record all the same, not the absence of data.
\<close>

theorem get_latest_data_no_qualifying_line:
  "file_lines ''boot\<newline>log: {\"timestamp\":2.0,\"uptime_sec\":7.00}\<newline>''
     = [''boot\<newline>'', ''log: {\"timestamp\":2.0,\"uptime_sec\":7.00}\<newline>'']
   \<and> \<not> list_ex (prefix json_start)
         (file_lines ''boot\<newline>log: {\"timestamp\":2.0,\"uptime_sec\":7.00}\<newline>'')
   \<and> get_latest_data (Bytes ''boot\<newline>log: {\"timestamp\":2.0,\"uptime_sec\":7.00}\<newline>'')
       = Some \<lparr>uptime = Finite 7, cpu_temp = Finite 0, cpu_usage = Finite 0, mem_total = 0,
               mem_free = 0, mem_used_pct = Finite 0\<rparr>"
proof -
  let ?w = "''boot\<newline>log: {\"timestamp\":2.0,\"uptime_sec\":7.00}\<newline>''"
  let ?l = "''log: {\"timestamp\":2.0,\"uptime_sec\":7.00}\<newline>''"
  have lines: "file_lines ?w = [''boot\<newline>'', ?l]" by (simp add: file_lines.simps)
  have none: "\<not> list_ex (prefix json_start) (file_lines ?w)"
    unfolding lines by (simp add: json_start_def)
  have w: "c_str (trailing_window ?w) = ?w"
    by (simp add: trailing_window_def c_str_def)
  have nl1: "strchr ?w (CHR 0x0A) = Some (CHR 0x0A # ?l)" by simp
  have nl2: "strchr ?l (CHR 0x0A) = Some ''\<newline>''" by simp
  have "scan_lines ?w None = scan_lines ?l (Some ?w)"
    unfolding scan_lines_step [OF nl1] by (simp add: json_start_def)
  also have "\<dots> = scan_lines [] (Some ?l)"
    unfolding scan_lines_step [OF nl2] by (simp add: json_start_def)
  also have "\<dots> = ([], Some ?l)" by (rule scan_lines_done) simp
  finally have "find_last_line ?w = Some ?l" by (simp add: find_last_line_def)
  then have "get_latest_data (Bytes ?w) = Some (parse_line ?l)"
    unfolding get_latest_data_bytes [of ?w, simplified] w by simp
  also have "parse_line ?l = \<lparr>uptime = Finite 7, cpu_temp = Finite 0, cpu_usage = Finite 0,
                mem_total = 0, mem_free = 0, mem_used_pct = Finite 0\<rparr>"
    by (simp add: parse_line_def extract_json_value_def strtod_eval power_int_minus
        round_double_7 long_of_double_def)
  finally show ?thesis using lines none by simp
qed


section \<open>Properties of the log line read back\<close>


subsection \<open>The serialised line\<close>

lemma digit_char_not_quote: "d < 10 \<Longrightarrow> digit_char d \<noteq> CHR 0x22"
  using digit_char_props(1) [of d] by (auto simp: isdigit_def)

lemma dec_no_quote: "CHR 0x22 \<notin> set (dec n)"
  using dec_props [of n] by (auto simp: list_all_iff isdigit_def)

lemma zero_pad_no_quote: "CHR 0x22 \<notin> set s \<Longrightarrow> CHR 0x22 \<notin> set (zero_pad w s)"
  by (simp add: zero_pad_def)

lemma fmt_no_quote:
  "CHR 0x22 \<notin> set (fmt_lu w)"
  "CHR 0x22 \<notin> set (fmt_ld w)"
  "CHR 0x22 \<notin> set (fmt_09ld w)"
  "CHR 0x22 \<notin> set (fmt_f p d)"
  by (auto simp: fmt_lu_def fmt_ld_def fmt_09ld_def fmt_f_def Let_def dec_no_quote
      zero_pad_no_quote split: double.splits)

lemma strstr_skip:
  "CHR 0x22 \<notin> set s \<Longrightarrow> strstr (s @ rest) (CHR 0x22 # k) = strstr rest (CHR 0x22 # k)"
  by (induction s) auto

lemmas strstr_skip_fmt = fmt_no_quote [THEN strstr_skip]

lemma extract_uptime_sec:
  "\<exists>rest. extract_json_value (json_text ts st) ''uptime_sec''
            = strtod (fmt_f 2 (uptime_sec st) @ CHR '','' # rest)"
  by (simp add: extract_json_value_def json_text_def strstr_skip_fmt) blast

lemma extract_temp_c:
  "\<exists>rest. extract_json_value (json_text ts st) ''temp_c''
            = strtod (fmt_f 2 (temp_c st) @ CHR '','' # rest)"
  by (simp add: extract_json_value_def json_text_def strstr_skip_fmt) blast

lemma extract_usage_pct:
  "\<exists>rest. extract_json_value (json_text ts st) ''usage_pct''
            = strtod (fmt_f 1 (cpu_usage_percent st) @ CHR ''}'' # rest)"
  by (simp add: extract_json_value_def json_text_def strstr_skip_fmt) blast

lemma extract_total_kb:
  "\<exists>rest. extract_json_value (json_text ts st) ''total_kb''
            = strtod (fmt_lu (mem_total_kb st) @ CHR '','' # rest)"
  by (simp add: extract_json_value_def json_text_def strstr_skip_fmt) blast

lemma extract_free_kb:
  "\<exists>rest. extract_json_value (json_text ts st) ''free_kb''
            = strtod (fmt_lu (mem_free_kb st) @ CHR '','' # rest)"
  by (simp add: extract_json_value_def json_text_def strstr_skip_fmt) blast

lemma extract_used_pct:
  "\<exists>rest. extract_json_value (json_text ts st) ''used_pct''
            = strtod (fmt_f 1 (used_pct st) @ CHR ''}'' # rest)"
  by (simp add: extract_json_value_def json_text_def strstr_skip_fmt) blast


subsection \<open>Reading back what printf wrote\<close>

lemma tolower_digit:
  assumes "isdigit c"
  shows "tolower c = c"
proof -
  have "c \<notin> set ''ABCDEFGHIJKLMNOPQRSTUVWXYZ''"
    using assms by (auto simp: isdigit_def)
  then have "map_of (zip ''ABCDEFGHIJKLMNOPQRSTUVWXYZ'' ''abcdefghijklmnopqrstuvwxyz'') c = None"
    by (subst map_of_zip_is_None) simp_all
  then show ?thesis by (simp only: tolower_def option.case)
qed

lemma tolower_separators:
  "tolower (CHR '','') = CHR '',''" "tolower (CHR ''}'') = CHR ''}''"
  "tolower (CHR ''.'') = CHR ''.''"
  by (simp_all add: tolower_def)

lemma scan_magnitude_decimal:
  assumes "isdigit d" and "tolower c \<noteq> CHR ''x''"
  shows "scan_magnitude (d # c # rest) = map_option round_double (scan_decimal (d # c # rest))"
proof -
  have step: "starts_nocase (w # ws) (x # xs) = (tolower x = w \<and> starts_nocase ws xs)"
    for w ws x xs by (auto simp: starts_nocase_def)
  have "d \<noteq> CHR ''i''" "d \<noteq> CHR ''n''" using assms(1) by (auto simp: isdigit_def)
  then have "\<not> starts_nocase ''inf'' (d # c # rest)" "\<not> starts_nocase ''nan'' (d # c # rest)"
    using tolower_digit [OF assms(1)] by (simp_all only: step) simp_all
  moreover have "\<not> starts_nocase ''0x'' (d # c # rest)"
    using assms(2) by (simp only: step) simp
  ultimately show ?thesis by (simp only: scan_magnitude_def if_False)
qed

lemma parse_double_unsigned:
  assumes "isdigit d"
  shows "parse_double (d # s) = scan_magnitude (d # s)"
  using isdigit_facts(1-3) [OF assms] by (simp add: parse_double_def option.map_ident)

lemma parse_double_negative:
  assumes "isdigit d"
  shows "parse_double (CHR ''-'' # d # s) = map_option double_neg (scan_magnitude (d # s))"
  by (simp add: parse_double_def isspace_def)

lemma nat_of_digits_append:
  "nat_of_digits (xs @ ys) = nat_of_digits xs * 10 ^ length ys + nat_of_digits ys"
proof (induction ys rule: rev_induct)
  case Nil
  show ?case by (simp add: nat_of_digits_def)
next
  case (snoc y ys)
  have "nat_of_digits (xs @ ys @ [y]) = 10 * nat_of_digits (xs @ ys) + digit_val y"
    using nat_of_digits_snoc [of "xs @ ys" y] by simp
  with snoc show ?case by (simp add: nat_of_digits_snoc algebra_simps)
qed

lemma nat_of_digits_zeros: "nat_of_digits (replicate k (CHR ''0'') @ ds) = nat_of_digits ds"
  by (induction k) (simp_all add: nat_of_digits_def digit_val_def)

lemma zero_pad_props:
  assumes "b < 10 ^ p" and "0 < p"
  shows "length (zero_pad p (dec b)) = p" and "list_all isdigit (zero_pad p (dec b))"
    and "nat_of_digits (zero_pad p (dec b)) = b"
proof -
  have len: "length (dec b) \<le> p" using assms by (rule length_dec)
  then show "length (zero_pad p (dec b)) = p" by (simp add: zero_pad_def)
  show "list_all isdigit (zero_pad p (dec b))"
    using dec_props [of b] by (auto simp: zero_pad_def list_all_iff isdigit_def)
  show "nat_of_digits (zero_pad p (dec b)) = b"
    using dec_props [of b] by (simp add: zero_pad_def nat_of_digits_zeros)
qed

lemma scan_decimal_fixed:
  assumes "list_all isdigit ip" and "list_all isdigit fp" and "ip \<noteq> []"
    and "\<not> isdigit c" and "tolower c \<noteq> CHR ''e''"
  shows "scan_decimal (ip @ CHR ''.'' # fp @ c # rest)
           = Some (real (nat_of_digits (ip @ fp)) * 10 powi (- int (length fp)))"
proof -
  have 1: "takeWhile isdigit (ip @ CHR ''.'' # fp @ c # rest) = ip"
    "dropWhile isdigit (ip @ CHR ''.'' # fp @ c # rest) = CHR ''.'' # fp @ c # rest"
    using takeWhile_digits [OF assms(1), of "CHR ''.'' # fp @ c # rest"]
    by (simp_all add: isdigit_def)
  have 2: "takeWhile isdigit (fp @ c # rest) = fp" "dropWhile isdigit (fp @ c # rest) = c # rest"
    using takeWhile_digits [OF assms(2), of "c # rest"] assms(4) by simp_all
  show ?thesis
    using assms(3,5) by (simp add: scan_decimal_def Let_def 1 2 scan_exponent_def)
qed

lemma scan_decimal_integer:
  assumes "list_all isdigit ip" and "ip \<noteq> []"
    and "\<not> isdigit c" and "c \<noteq> CHR ''.''" and "tolower c \<noteq> CHR ''e''"
  shows "scan_decimal (ip @ c # rest) = Some (real (nat_of_digits ip))"
proof -
  have 1: "takeWhile isdigit (ip @ c # rest) = ip" "dropWhile isdigit (ip @ c # rest) = c # rest"
    using takeWhile_digits [OF assms(1), of "c # rest"] assms(3) by simp_all
  show ?thesis
    using assms(2,4,5) by (simp add: scan_decimal_def Let_def 1 scan_exponent_def)
qed

text \<open>Digits followed by a point or a separator start as a decimal number.\<close>

lemma digits_start:
  assumes "list_all isdigit ip" and "ip \<noteq> []" and "tolower c \<noteq> CHR ''x''"
  shows "\<exists>d c2 r. ip @ c # rest = d # c2 # r \<and> isdigit d \<and> tolower c2 \<noteq> CHR ''x''"
proof (cases ip)
  case Nil
  with assms(2) show ?thesis by simp
next
  case (Cons d ds)
  show ?thesis
  proof (cases ds)
    case Nil
    with Cons assms show ?thesis by simp
  next
    case (Cons e es)
    with \<open>ip = d # ds\<close> assms(1) have "isdigit d" "isdigit e" by simp_all
    moreover from \<open>isdigit e\<close> have "tolower e \<noteq> CHR ''x''"
      using tolower_digit [of e] by (auto simp: isdigit_def)
    ultimately show ?thesis using Cons \<open>ip = d # ds\<close> by simp
  qed
qed

lemma strtod_fixed:
  assumes "list_all isdigit ip" and "list_all isdigit fp" and "ip \<noteq> []"
    and "\<not> isdigit c" and "tolower c \<noteq> CHR ''e''"
  shows "strtod ((if neg then ''-'' else []) @ ip @ CHR ''.'' # fp @ c # rest)
           = (let v = round_double (real (nat_of_digits (ip @ fp)) * 10 powi (- int (length fp)))
              in if neg then double_neg v else v)"
proof -
  from digits_start [OF assms(1,3), of "CHR ''.''" "fp @ c # rest"]
  obtain d c2 r where s: "ip @ CHR ''.'' # fp @ c # rest = d # c2 # r"
    and d: "isdigit d" and c2: "tolower c2 \<noteq> CHR ''x''"
    by (auto simp: tolower_separators)
  have m: "scan_magnitude (ip @ CHR ''.'' # fp @ c # rest)
             = Some (round_double (real (nat_of_digits (ip @ fp)) * 10 powi (- int (length fp))))"
    unfolding s scan_magnitude_decimal [OF d c2]
    unfolding s [symmetric] scan_decimal_fixed [OF assms] by simp
  show ?thesis
  proof (cases neg)
    case True
    then show ?thesis
      using parse_double_negative [OF d, of "c2 # r"] m
      by (simp add: strtod_def s Let_def)
  next
    case False
    then show ?thesis
      using parse_double_unsigned [OF d, of "c2 # r"] m
      by (simp add: strtod_def s Let_def)
  qed
qed

lemma strtod_integer:
  assumes "list_all isdigit ip" and "ip \<noteq> []"
  shows "strtod (ip @ CHR '','' # rest) = round_double (real (nat_of_digits ip))"
proof -
  from digits_start [OF assms, of "CHR '',''" rest]
  obtain d c2 r where s: "ip @ CHR '','' # rest = d # c2 # r"
    and d: "isdigit d" and c2: "tolower c2 \<noteq> CHR ''x''"
    by (auto simp: tolower_separators)
  have "scan_decimal (ip @ CHR '','' # rest) = Some (real (nat_of_digits ip))"
    using assms by (intro scan_decimal_integer) (simp_all add: isdigit_def tolower_separators)
  then have "scan_magnitude (ip @ CHR '','' # rest) = Some (round_double (real (nat_of_digits ip)))"
    unfolding s scan_magnitude_decimal [OF d c2] by simp
  then show ?thesis
    using parse_double_unsigned [OF d, of "c2 # r"] by (simp add: strtod_def s)
qed


subsection \<open>Representable numbers\<close>

lemma round_finite_idem: "round_finite (round_finite x) = round_finite x"
proof (cases "x = 0")
  case True
  then show ?thesis by (simp add: round_finite_zero)
next
  case False
  define u where "u = ulp_exponent x"
  define z where "z = x / 2 powi u"
  define r where "r = round_half_even z"
  have q: "(0::real) < 2 powi u" by (simp add: zero_less_power_int)
  have rx: "round_finite x = of_int r * 2 powi u"
    using False by (simp add: round_finite_def r_def u_def z_def)
  have u1: "\<lfloor>log 2 \<bar>x\<bar>\<rfloor> + 1 \<le> u + 53" and u2: "- 1074 \<le> u"
    by (simp_all add: u_def ulp_exponent_def)
  have "\<bar>x\<bar> < 2 powi (\<lfloor>log 2 \<bar>x\<bar>\<rfloor> + 1)" using log2_floor_bounds(2) [OF False] .
  also have "\<dots> \<le> 2 powi (u + 53)" using u1 by (intro power_int_increasing) auto
  also have "\<dots> = 2 ^ 53 * 2 powi u" by (simp add: power_int_add)
  finally have "\<bar>x\<bar> / 2 powi u < 2 ^ 53" using q by (simp add: pos_divide_less_eq)
  then have "\<bar>z\<bar> < 2 ^ 53" using q by (simp add: z_def abs_divide)
  then have b: "- (2 ^ 53) \<le> z" "z \<le> 2 ^ 53" by linarith+
  have "round_half_even (real_of_int (- (2 ^ 53))) \<le> r" "r \<le> round_half_even (real_of_int (2 ^ 53))"
    unfolding r_def using b by (intro round_half_even_mono; simp)+
  then have rb: "\<bar>r\<bar> \<le> 2 ^ 53" unfolding round_half_even_of_int by simp
  show ?thesis
  proof (cases "\<bar>r\<bar> = 2 ^ 53")
    case True
    then have "r = 2 ^ 53 \<or> r = - (2 ^ 53)" by linarith
    then have "real_of_int r * 2 powi u = of_int (if 0 \<le> r then 1 else - 1) * 2 powi (u + 53)"
      by (auto simp: power_int_add)
    moreover have "- 1074 \<le> u + 53" using u2 by simp
    ultimately show ?thesis
      unfolding rx using round_finite_exact [of "if 0 \<le> r then 1 else - 1" "u + 53"] by simp
  next
    case False
    with rb have "\<bar>r\<bar> < 2 ^ 53" by simp
    then show ?thesis unfolding rx using u2 by (rule round_finite_exact)
  qed
qed

lemma round_double_representable: "round_double x = Finite r \<Longrightarrow> representable r"
  by (auto simp: round_double_def Let_def representable_def round_finite_idem split: if_splits)

lemma representable_abs: "representable x \<Longrightarrow> representable \<bar>x\<bar>"
  by (auto simp: representable_def abs_if round_finite_minus)

lemma representable_large_int:
  assumes "round_finite x = x" and "2 ^ 53 \<le> \<bar>x\<bar>"
  shows "\<exists>n. x = real_of_int n"
proof -
  have x0: "x \<noteq> 0" using assms(2) by auto
  define u where "u = ulp_exponent x"
  have "(2::real) powi 53 \<le> \<bar>x\<bar>" using assms(2) by simp
  also have "\<bar>x\<bar> < 2 powi (\<lfloor>log 2 \<bar>x\<bar>\<rfloor> + 1)" using log2_floor_bounds(2) [OF x0] .
  finally have "53 < \<lfloor>log 2 \<bar>x\<bar>\<rfloor> + 1"
    by (smt (verit) power_int_increasing)
  then have u: "1 \<le> u" by (simp add: u_def ulp_exponent_def)
  define r where "r = round_half_even (x / 2 powi u)"
  have e: "(2::real) powi u = of_int (2 ^ nat u)" using u by (simp add: power_int_def)
  have "x = of_int r * 2 powi u"
    using assms(1) x0 by (simp add: round_finite_def u_def r_def)
  then have "x = of_int (r * 2 ^ nat u)" unfolding e by simp
  then show ?thesis ..
qed

text \<open>
  A representable number printed with \<open>p\<close> decimal places and read back is within one
  unit of the last printed place.
\<close>

lemma fixed_point_round_trip:
  assumes "representable x" and "0 \<le> x"
  shows "\<exists>y. round_double (real (nat (round_half_even (x * 10 ^ p))) / 10 ^ p) = Finite y
             \<and> \<bar>y - x\<bar> \<le> 1 / 10 ^ p"
proof -
  define s :: real where "s = 10 ^ p"
  define k where "k = nat (round_half_even (x * s))"
  define y0 where "y0 = real k / s"
  have s: "1 \<le> s" "0 < s" by (simp_all add: s_def)
  have "round_half_even 0 \<le> round_half_even (x * s)"
    using assms(2) s by (intro round_half_even_mono) simp
  then have "0 \<le> round_half_even (x * s)" using round_half_even_of_int [of 0] by simp
  then have rk: "real k = of_int (round_half_even (x * s))" by (simp add: k_def)
  have half: "\<bar>real k - x * s\<bar> \<le> 1 / 2" unfolding rk by (rule round_half_even_error)
  have "y0 - x = (real k - x * s) / s" using s by (simp add: y0_def diff_divide_distrib)
  then have "\<bar>y0 - x\<bar> = \<bar>real k - x * s\<bar> / s" using s by (simp add: abs_divide)
  also have "\<dots> \<le> (1 / 2) / s" using half s by (intro divide_right_mono) simp_all
  finally have e0: "\<bar>y0 - x\<bar> \<le> 1 / (2 * s)" by simp
  have y0: "0 \<le> y0" using s by (simp add: y0_def)
  have rx: "round_finite x = x" and fin: "\<bar>x\<bar> < 2 ^ 1024"
    using assms(1) by (simp_all add: representable_def)
  show ?thesis
  proof (cases "x < 2 ^ 53")
    case True
    have "1 / (2 * s) \<le> 1" using s by simp
    with e0 True have le: "y0 \<le> 2 ^ 54" by (simp add: abs_le_iff)
    have r0: "round_finite 0 = 0" by (rule round_finite_zero)
    have r54: "round_finite (2 ^ 54) = 2 ^ 54" by (rule round_finite_power2)
    from round_double_in_range(1) [OF y0 le r0 r54]
    have f: "round_double y0 = Finite (round_finite y0)" by simp
    have "\<bar>round_finite y0 - y0\<bar> \<le> \<bar>x - y0\<bar>" using rx by (rule round_finite_nearest)
    with e0 have "\<bar>round_finite y0 - x\<bar> \<le> 1 / (2 * s) + 1 / (2 * s)"
      by linarith
    also have "\<dots> = 1 / s" using s by simp
    finally show ?thesis using f by (auto simp: y0_def k_def s_def)
  next
    case False
    with assms(2) have "2 ^ 53 \<le> \<bar>x\<bar>" by simp
    from representable_large_int [OF rx this] obtain n where n: "x = real_of_int n" ..
    with assms(2) have n0: "0 \<le> n" by simp
    have "x * s = of_int (n * 10 ^ p)" by (simp add: n s_def)
    then have "round_half_even (x * s) = n * 10 ^ p" by (simp only: round_half_even_of_int)
    then have "real k = x * s" using n0 by (simp add: k_def n s_def)
    then have "y0 = x" using s by (simp add: y0_def)
    moreover have "round_double x = Finite x" using rx fin by (rule round_double_exact)
    ultimately show ?thesis by (auto simp: y0_def k_def s_def)
  qed
qed


lemma strtod_fmt_f:
  assumes "0 < p" and "c = CHR '','' \<or> c = CHR ''}''"
  shows "strtod (fmt_f p (Finite x) @ c # rest)
           = (let v = round_double (real (nat (round_half_even (\<bar>x\<bar> * 10 ^ p))) / 10 ^ p)
              in if x < 0 then double_neg v else v)"
proof -
  define k where "k = nat (round_half_even (\<bar>x\<bar> * 10 ^ p))"
  define ip where "ip = dec (k div 10 ^ p)"
  define fp where "fp = zero_pad p (dec (k mod 10 ^ p))"
  have ip: "list_all isdigit ip" "ip \<noteq> []" "nat_of_digits ip = k div 10 ^ p"
    using dec_props [of "k div 10 ^ p"] by (simp_all add: ip_def)
  have "k mod 10 ^ p < 10 ^ p" by simp
  from zero_pad_props [OF this assms(1)]
  have fp: "length fp = p" "list_all isdigit fp" "nat_of_digits fp = k mod 10 ^ p"
    by (simp_all add: fp_def)
  have c: "\<not> isdigit c" "tolower c \<noteq> CHR ''e''"
    using assms(2) by (auto simp: isdigit_def tolower_separators)
  have shape: "fmt_f p (Finite x) @ c # rest
                = (if x < 0 then ''-'' else []) @ ip @ CHR ''.'' # fp @ c # rest"
    using assms(1) by (simp add: fmt_f_def Let_def k_def ip_def fp_def)
  have "nat_of_digits (ip @ fp) = k div 10 ^ p * 10 ^ p + k mod 10 ^ p"
    by (simp only: nat_of_digits_append ip fp)
  then have "nat_of_digits (ip @ fp) = k"
    by (simp only: div_mult_mod_eq)
  moreover have "(10::real) powi (- int p) = 1 / 10 ^ p"
    by (simp add: power_int_minus divide_inverse)
  ultimately have "real (nat_of_digits (ip @ fp)) * 10 powi (- int (length fp)) = real k / 10 ^ p"
    by (simp add: fp)
  then show ?thesis
    unfolding shape strtod_fixed [OF ip(1) fp(2) ip(2) c] k_def by simp
qed

text \<open>What the extractor reads back from a printed double is within the printed precision.\<close>

lemma strtod_fmt_f_close:
  assumes "representable x" and "0 < p" and "c = CHR '','' \<or> c = CHR ''}''"
  shows "\<exists>y. strtod (fmt_f p (Finite x) @ c # rest) = Finite y \<and> \<bar>y - x\<bar> \<le> 1 / 10 ^ p"
proof -
  from fixed_point_round_trip [OF representable_abs [OF assms(1)], of p]
  obtain y where y: "round_double (real (nat (round_half_even (\<bar>x\<bar> * 10 ^ p))) / 10 ^ p) = Finite y"
    and close: "\<bar>y - \<bar>x\<bar>\<bar> \<le> 1 / 10 ^ p" by auto
  show ?thesis
  proof (cases "x < 0")
    case True
    then have "strtod (fmt_f p (Finite x) @ c # rest) = Finite (- y)"
      by (simp only: strtod_fmt_f [OF assms(2,3)] y Let_def if_True double_neg.simps)
    moreover have "\<bar>- y - x\<bar> \<le> 1 / 10 ^ p" using close True by simp
    ultimately show ?thesis by blast
  next
    case False
    then have "strtod (fmt_f p (Finite x) @ c # rest) = Finite y"
      by (simp only: strtod_fmt_f [OF assms(2,3)] y Let_def if_False)
    moreover have "\<bar>y - x\<bar> \<le> 1 / 10 ^ p" using close False by simp
    ultimately show ?thesis by blast
  qed
qed

lemma strtod_fmt_lu:
  "strtod (fmt_lu w @ CHR '','' # rest) = round_double (real (unat w))"
  using dec_props [of "unat w"] strtod_integer [of "dec (unat w)" rest]
  by (simp add: fmt_lu_def)

lemma long_of_double_nat:
  assumes "n < 2 ^ 63"
  shows "long_of_double (Finite (real n)) = word_of_nat n"
proof -
  have "int n < 2 ^ 63" using assms by (metis of_nat_less_iff of_nat_numeral of_nat_power)
  then show ?thesis by (simp add: long_of_double_def)
qed

lemma long_of_printed:
  assumes "unat w \<le> 2 ^ 53"
  shows "long_of_double (strtod (fmt_lu w @ CHR '','' # rest)) = w"
proof -
  have "\<bar>int (unat w)\<bar> \<le> 2 ^ 53"
    using assms by (metis abs_of_nat of_nat_le_iff of_nat_numeral of_nat_power)
  from round_double_of_int [OF this]
  have r: "round_double (real (unat w)) = Finite (real (unat w))" by simp
  have "unat w < 2 ^ 63" using assms by simp
  then have "long_of_double (Finite (real (unat w))) = word_of_nat (unat w)"
    by (rule long_of_double_nat)
  then show ?thesis by (simp only: strtod_fmt_lu r) simp
qed


subsection \<open>used_pct\<close>

lemma used_pct_finite: "\<exists>v. used_pct st = Finite v \<and> representable v"
proof (cases "mem_total_kb st > 0")
  case False
  have "representable 0" by (simp add: representable_def round_finite_zero)
  with False show ?thesis by (auto simp: used_pct_def)
next
  case True
  define ra where "ra = round_finite (real (unat (mem_available_kb st)))"
  define rt where "rt = round_finite (real (unat (mem_total_kb st)))"
  note a = double_of_u64_range [of "mem_available_kb st", folded ra_def]
  note t = double_of_u64_range [of "mem_total_kb st", folded rt_def]
  have r0: "round_finite 0 = 0" by (rule round_finite_zero)
  have r1: "round_finite 1 = 1" using round_finite_power2 [of 0] by simp
  have r64: "round_finite (2 ^ 64) = 2 ^ 64" by (rule round_finite_power2)
  have m64: "round_finite (- (2 ^ 64)) = - (2 ^ 64)"
    using round_finite_power2 [of 64] by (simp only: round_finite_minus)
  have m71: "round_finite (- (2 ^ 71)) = - (2 ^ 71)"
    using round_finite_power2 [of 71] by (simp only: round_finite_minus)
  have r7: "round_finite (2 ^ 7) = 2 ^ 7" by (rule round_finite_power2)
  from True have "unat (mem_total_kb st) \<noteq> 0" by (simp add: unat_eq_0)
  then have "1 \<le> unat (mem_total_kb st)" by linarith
  then have "real 1 \<le> real (unat (mem_total_kb st))" by (rule of_nat_mono)
  then have "round_finite 1 \<le> rt" unfolding rt_def by (intro round_finite_mono) simp
  then have rt1: "1 \<le> rt" by (simp add: r1)
  define q where "q = ra / rt"
  have "ra * 1 \<le> ra * rt" using rt1 a(2) by (intro mult_left_mono) simp_all
  then have "q \<le> ra" using rt1 by (simp add: q_def divide_le_eq)
  then have q: "0 \<le> q" "q \<le> 2 ^ 64" using a(2,3) rt1 by (simp_all add: q_def)
  note rq = round_double_in_range [OF q r0 r64]
  define d where "d = 1 - round_finite q"
  have d: "- (2 ^ 64) \<le> d" "d \<le> 1" using rq(2,3) by (simp_all add: d_def)
  note rd = round_double_in_range [OF d m64 r1]
  define e where "e = round_finite d * 100"
  have e: "- (2 ^ 71) \<le> e" "e \<le> 2 ^ 7" using rd(2,3) by (simp_all add: e_def)
  note re = round_double_in_range [OF e m71 r7]
  have "used_pct st = double_mul (double_sub (Finite 1) (double_div (Finite ra) (Finite rt)))
                        (Finite 100)"
    using True by (simp add: used_pct_def a(1) t(1))
  also have "double_div (Finite ra) (Finite rt) = Finite (round_finite q)"
    using rt1 rq(1) by (simp add: q_def)
  also have "double_sub (Finite 1) (Finite (round_finite q)) = Finite (round_finite d)"
    using rd(1) by (simp add: double_sub_def d_def)
  also have "double_mul (Finite (round_finite d)) (Finite 100) = round_double e"
    by (simp add: e_def)
  finally have "used_pct st = round_double e" .
  with re(1) round_double_representable [of e] show ?thesis by auto
qed


subsection \<open>The round trip\<close>

lemma extract_total_kb_value:
  "extract_json_value (json_text ts st) ''total_kb'' = round_double (real (unat (mem_total_kb st)))"
  using extract_total_kb [of ts st] by (auto simp: strtod_fmt_lu)

text \<open>
  C6 (amended). Let \<open>print_json\<close> write the line of a state whose three stored doubles
  are finite. Then \<open>extract_json_value\<close> reads back from that line: \<open>uptime_sec\<close> and
  \<open>temp_c\<close> within \<open>0.01\<close> of the stored values, \<open>usage_pct\<close> within \<open>0.1\<close> of the
  stored usage, and \<open>used_pct\<close> within \<open>0.1\<close> of the percentage \<open>print_json\<close>
  computed. The integers \<open>total_kb\<close> and \<open>free_kb\<close> pass through a double on the way to
  \<open>long\<close>: they come back exactly when they are at most \<open>2 ^ 53\<close>.
\<close>

theorem print_json_round_trip:
  assumes "print_json ts st = Some line"
    and "uptime_sec st = Finite u" and "representable u"
    and "temp_c st = Finite t" and "representable t"
    and "cpu_usage_percent st = Finite c" and "representable c"
  shows "\<exists>u' t' c' p p'.
      extract_json_value line ''uptime_sec'' = Finite u' \<and> \<bar>u' - u\<bar> \<le> 1 / 100
    \<and> extract_json_value line ''temp_c'' = Finite t' \<and> \<bar>t' - t\<bar> \<le> 1 / 100
    \<and> extract_json_value line ''usage_pct'' = Finite c' \<and> \<bar>c' - c\<bar> \<le> 1 / 10
    \<and> used_pct st = Finite p
    \<and> extract_json_value line ''used_pct'' = Finite p' \<and> \<bar>p' - p\<bar> \<le> 1 / 10
    \<and> (unat (mem_total_kb st) \<le> 2 ^ 53 \<longrightarrow>
         long_of_double (extract_json_value line ''total_kb'') = mem_total_kb st)
    \<and> (unat (mem_free_kb st) \<le> 2 ^ 53 \<longrightarrow>
         long_of_double (extract_json_value line ''free_kb'') = mem_free_kb st)"
proof -
  have line: "line = json_text ts st"
    using assms(1) by (simp add: print_json_def Let_def split: if_splits)
  from used_pct_finite [of st] obtain p where p: "used_pct st = Finite p" "representable p"
    by blast
  from extract_uptime_sec [of ts st] strtod_fmt_f_close [OF assms(3), of 2 "CHR '',''"]
  obtain u' where u': "extract_json_value line ''uptime_sec'' = Finite u'" "\<bar>u' - u\<bar> \<le> 1 / 100"
    unfolding line assms(2) by fastforce
  from extract_temp_c [of ts st] strtod_fmt_f_close [OF assms(5), of 2 "CHR '',''"]
  obtain t' where t': "extract_json_value line ''temp_c'' = Finite t'" "\<bar>t' - t\<bar> \<le> 1 / 100"
    unfolding line assms(4) by fastforce
  from extract_usage_pct [of ts st] strtod_fmt_f_close [OF assms(7), of 1 "CHR ''}''"]
  obtain c' where c': "extract_json_value line ''usage_pct'' = Finite c'" "\<bar>c' - c\<bar> \<le> 1 / 10"
    unfolding line assms(6) by fastforce
  from extract_used_pct [of ts st] strtod_fmt_f_close [OF p(2), of 1 "CHR ''}''"]
  obtain p' where p': "extract_json_value line ''used_pct'' = Finite p'" "\<bar>p' - p\<bar> \<le> 1 / 10"
    unfolding line p(1) by fastforce
  have total: "long_of_double (extract_json_value line ''total_kb'') = mem_total_kb st"
    if "unat (mem_total_kb st) \<le> 2 ^ 53"
    using extract_total_kb [of ts st] long_of_printed [OF that] unfolding line by auto
  have free: "long_of_double (extract_json_value line ''free_kb'') = mem_free_kb st"
    if "unat (mem_free_kb st) \<le> 2 ^ 53"
    using extract_free_kb [of ts st] long_of_printed [OF that] unfolding line by auto
  from u' t' c' p(1) p' total free show ?thesis by blast
qed


lemma round_double_half: "round_double (1 / 2) = Finite (1 / 2)"
proof -
  have "round_finite (of_int 1 * 2 powi (- 1)) = of_int 1 * 2 powi (- 1)"
    by (rule round_finite_exact) simp_all
  then have "round_finite (1 / 2) = 1 / 2" by (simp add: power_int_minus)
  then show ?thesis by (rule round_double_exact) simp
qed

lemma representable_halves:
  assumes "\<bar>m\<bar> < 2 ^ 53"
  shows "representable (of_int m / 2)"
proof -
  have "round_finite (of_int m * 2 powi (- 1)) = of_int m * 2 powi (- 1)"
    using assms by (rule round_finite_exact) simp
  then have r: "round_finite (of_int m / 2) = of_int m / 2" by (simp add: power_int_minus)
  have "\<bar>real_of_int m\<bar> < 2 ^ 53"
    using assms by (metis of_int_abs of_int_less_iff of_int_numeral of_int_power)
  then have "\<bar>real_of_int m / 2\<bar> < 2 ^ 1024" by simp
  with r show ?thesis by (simp add: representable_def)
qed

lemmas fmt_eval =
  fmt_ld_def fmt_09ld_def fmt_lu_def fmt_f_def zero_pad_def dec.simps digit_char_def
  round_half_even_def Let_def replicate_num

lemma json_text_example:
  "json_text \<lparr>tv_sec = 1700000000, tv_nsec = 5\<rparr>
     \<lparr>temp_c = Finite (85 / 2), cpu_usage_percent = Finite 25, mem_total_kb = 1000000,
      mem_available_kb = 500000, mem_free_kb = 300000, uptime_sec = Finite (25 / 2)\<rparr>
   = ''{\"timestamp\":1700000000.000000005,\"uptime_sec\":12.50,\"cpu\":{\"temp_c\":42.50,\"usage_pct\":25.0},\"memory\":{\"total_kb\":1000000,\"free_kb\":300000,\"available_kb\":500000,\"used_pct\":50.0}}\<newline>''"
proof -
  have r: "round_double 1000000 = Finite 1000000" "round_double 500000 = Finite 500000"
    "round_double 50 = Finite 50"
    using round_double_of_int [of 1000000] round_double_of_int [of 500000]
      round_double_of_int [of 50] by simp_all
  have "used_pct \<lparr>temp_c = Finite (85 / 2), cpu_usage_percent = Finite 25,
      mem_total_kb = 1000000, mem_available_kb = 500000, mem_free_kb = 300000,
      uptime_sec = Finite (25 / 2)\<rparr> = Finite 50"
    by (simp add: used_pct_def double_of_u64_def double_sub_def r round_double_half)
  then show ?thesis
    by (simp add: json_text_def fmt_eval)
qed


theorem print_json_round_trip_witness:
  "print_json \<lparr>tv_sec = 1700000000, tv_nsec = 5\<rparr>
     \<lparr>temp_c = Finite (85 / 2), cpu_usage_percent = Finite 25, mem_total_kb = 1000000,
      mem_available_kb = 500000, mem_free_kb = 300000, uptime_sec = Finite (25 / 2)\<rparr>
   = Some ''{\"timestamp\":1700000000.000000005,\"uptime_sec\":12.50,\"cpu\":{\"temp_c\":42.50,\"usage_pct\":25.0},\"memory\":{\"total_kb\":1000000,\"free_kb\":300000,\"available_kb\":500000,\"used_pct\":50.0}}\<newline>''
   \<and> representable (25 / 2) \<and> representable (85 / 2) \<and> representable 25
   \<and> (\<exists>u' t' c' p'.
        extract_json_value ''{\"timestamp\":1700000000.000000005,\"uptime_sec\":12.50,\"cpu\":{\"temp_c\":42.50,\"usage_pct\":25.0},\"memory\":{\"total_kb\":1000000,\"free_kb\":300000,\"available_kb\":500000,\"used_pct\":50.0}}\<newline>'' ''uptime_sec'' = Finite u'
        \<and> \<bar>u' - 25 / 2\<bar> \<le> 1 / 100
        \<and> extract_json_value ''{\"timestamp\":1700000000.000000005,\"uptime_sec\":12.50,\"cpu\":{\"temp_c\":42.50,\"usage_pct\":25.0},\"memory\":{\"total_kb\":1000000,\"free_kb\":300000,\"available_kb\":500000,\"used_pct\":50.0}}\<newline>'' ''temp_c'' = Finite t'
        \<and> \<bar>t' - 85 / 2\<bar> \<le> 1 / 100
        \<and> extract_json_value ''{\"timestamp\":1700000000.000000005,\"uptime_sec\":12.50,\"cpu\":{\"temp_c\":42.50,\"usage_pct\":25.0},\"memory\":{\"total_kb\":1000000,\"free_kb\":300000,\"available_kb\":500000,\"used_pct\":50.0}}\<newline>'' ''usage_pct'' = Finite c'
        \<and> \<bar>c' - 25\<bar> \<le> 1 / 10
        \<and> extract_json_value ''{\"timestamp\":1700000000.000000005,\"uptime_sec\":12.50,\"cpu\":{\"temp_c\":42.50,\"usage_pct\":25.0},\"memory\":{\"total_kb\":1000000,\"free_kb\":300000,\"available_kb\":500000,\"used_pct\":50.0}}\<newline>'' ''used_pct'' = Finite p')
   \<and> long_of_double (extract_json_value ''{\"timestamp\":1700000000.000000005,\"uptime_sec\":12.50,\"cpu\":{\"temp_c\":42.50,\"usage_pct\":25.0},\"memory\":{\"total_kb\":1000000,\"free_kb\":300000,\"available_kb\":500000,\"used_pct\":50.0}}\<newline>'' ''total_kb'') = 1000000
   \<and> long_of_double (extract_json_value ''{\"timestamp\":1700000000.000000005,\"uptime_sec\":12.50,\"cpu\":{\"temp_c\":42.50,\"usage_pct\":25.0},\"memory\":{\"total_kb\":1000000,\"free_kb\":300000,\"available_kb\":500000,\"used_pct\":50.0}}\<newline>'' ''free_kb'') = 300000"
proof -
  let ?ts = "\<lparr>tv_sec = 1700000000, tv_nsec = (5::64 word)\<rparr>"
  let ?st = "\<lparr>temp_c = Finite (85 / 2), cpu_usage_percent = Finite 25,
      mem_total_kb = 1000000, mem_available_kb = 500000, mem_free_kb = 300000,
      uptime_sec = Finite (25 / 2)\<rparr>"
  let ?line = "''{\"timestamp\":1700000000.000000005,\"uptime_sec\":12.50,\"cpu\":{\"temp_c\":42.50,\"usage_pct\":25.0},\"memory\":{\"total_kb\":1000000,\"free_kb\":300000,\"available_kb\":500000,\"used_pct\":50.0}}\<newline>''"
  have printed: "print_json ?ts ?st = Some ?line"
    unfolding print_json_def json_text_example by simp
  have ru: "representable (25 / 2)" using representable_halves [of 25] by simp
  have rt: "representable (85 / 2)" using representable_halves [of 85] by simp
  have rc: "representable 25" using representable_halves [of 50] by simp
  have "\<exists>u' t' c' p p'.
      extract_json_value ?line ''uptime_sec'' = Finite u' \<and> \<bar>u' - 25 / 2\<bar> \<le> 1 / 100
    \<and> extract_json_value ?line ''temp_c'' = Finite t' \<and> \<bar>t' - 85 / 2\<bar> \<le> 1 / 100
    \<and> extract_json_value ?line ''usage_pct'' = Finite c' \<and> \<bar>c' - 25\<bar> \<le> 1 / 10
    \<and> used_pct ?st = Finite p
    \<and> extract_json_value ?line ''used_pct'' = Finite p' \<and> \<bar>p' - p\<bar> \<le> 1 / 10
    \<and> (unat (mem_total_kb ?st) \<le> 2 ^ 53
        \<longrightarrow> long_of_double (extract_json_value ?line ''total_kb'') = mem_total_kb ?st)
    \<and> (unat (mem_free_kb ?st) \<le> 2 ^ 53
        \<longrightarrow> long_of_double (extract_json_value ?line ''free_kb'') = mem_free_kb ?st)"
    by (rule print_json_round_trip [OF printed _ ru _ rt _ rc]) simp_all
  then obtain u' t' c' p p' where
    "extract_json_value ?line ''uptime_sec'' = Finite u'" "\<bar>u' - 25 / 2\<bar> \<le> 1 / 100"
    "extract_json_value ?line ''temp_c'' = Finite t'" "\<bar>t' - 85 / 2\<bar> \<le> 1 / 100"
    "extract_json_value ?line ''usage_pct'' = Finite c'" "\<bar>c' - 25\<bar> \<le> 1 / 10"
    "extract_json_value ?line ''used_pct'' = Finite p'"
    "long_of_double (extract_json_value ?line ''total_kb'') = 1000000"
    "long_of_double (extract_json_value ?line ''free_kb'') = 300000"
    by auto
  with printed ru rt rc show ?thesis by blast
qed

lemma round_double_tie: "round_double 9007199254740993 = Finite 9007199254740992"
proof -
  have "\<lfloor>log 2 \<bar>9007199254740993 :: real\<bar>\<rfloor> = 53"
    by (rule log2_floor_unique) simp_all
  then have u: "ulp_exponent 9007199254740993 = 1" by (simp add: ulp_exponent_def)
  have "round_finite 9007199254740993 = 9007199254740992"
    by (simp add: round_finite_def u round_half_even_def)
  then show ?thesis by (simp add: round_double_def)
qed

text \<open>
  C6 as stated fails for an integer field that a double cannot hold: a total of
  \<open>2 ^ 53 + 1\<close> kB is written in full and read back as \<open>2 ^ 53\<close>.
\<close>

theorem print_json_large_total_counterexample:
  "print_json \<lparr>tv_sec = 0, tv_nsec = 0\<rparr>
     \<lparr>temp_c = Finite 0, cpu_usage_percent = Finite 0, mem_total_kb = 9007199254740993,
      mem_available_kb = 0, mem_free_kb = 0, uptime_sec = Finite 0\<rparr>
   = Some ''{\"timestamp\":0.000000000,\"uptime_sec\":0.00,\"cpu\":{\"temp_c\":0.00,\"usage_pct\":0.0},\"memory\":{\"total_kb\":9007199254740993,\"free_kb\":0,\"available_kb\":0,\"used_pct\":100.0}}\<newline>''
   \<and> long_of_double (extract_json_value ''{\"timestamp\":0.000000000,\"uptime_sec\":0.00,\"cpu\":{\"temp_c\":0.00,\"usage_pct\":0.0},\"memory\":{\"total_kb\":9007199254740993,\"free_kb\":0,\"available_kb\":0,\"used_pct\":100.0}}\<newline>'' ''total_kb'')
     = 9007199254740992"
proof -
  let ?ts = "\<lparr>tv_sec = 0, tv_nsec = (0::64 word)\<rparr>"
  let ?st = "\<lparr>temp_c = Finite 0, cpu_usage_percent = Finite 0,
      mem_total_kb = 9007199254740993, mem_available_kb = 0, mem_free_kb = 0,
      uptime_sec = Finite 0\<rparr>"
  have r: "round_double 1 = Finite 1" "round_double 100 = Finite 100"
    using round_double_of_int [of 1] round_double_of_int [of 100] by simp_all
  have "used_pct ?st = Finite 100"
    by (simp add: used_pct_def double_of_u64_def double_sub_def round_double_tie
        round_double_zero r)
  then have text_eq: "json_text ?ts ?st
     = ''{\"timestamp\":0.000000000,\"uptime_sec\":0.00,\"cpu\":{\"temp_c\":0.00,\"usage_pct\":0.0},\"memory\":{\"total_kb\":9007199254740993,\"free_kb\":0,\"available_kb\":0,\"used_pct\":100.0}}\<newline>''"
    by (simp add: json_text_def fmt_eval)
  have "long_of_double (extract_json_value (json_text ?ts ?st) ''total_kb'') = 9007199254740992"
    unfolding extract_total_kb_value by (simp add: round_double_tie long_of_double_def)
  then show ?thesis
    unfolding print_json_def text_eq by simp
qed

end
